theory Spec2Isabelle
  imports Complex_Main "HOL-Library.Monad_Syntax"
begin

section \<open>Strings of the source language\<close>

text \<open>
  A Python \<open>str\<close> is a sequence of Unicode code points, and the regular expressions of
  \<open>ast.py\<close> are compiled without the ASCII flag, so \<open>\s\<close> and \<open>\d\<close> are the Unicode
  classes. A character is therefore a code point (a natural number), and a string is a
  list of them. \<open>ustr\<close> turns an ASCII literal into such a string.
\<close>

type_synonym pychar = nat
type_synonym pystr = "pychar list"

definition ustr :: "string \<Rightarrow> pystr" where
  "ustr s = map of_char s"

text \<open>\<open>text[a:b]\<close> for \<open>0 \<le> a\<close>, \<open>0 \<le> b\<close>.\<close>

definition slice :: "pystr \<Rightarrow> nat \<Rightarrow> nat \<Rightarrow> pystr" where
  "slice text a b = take (b - a) (drop a text)"

text \<open>
  The class \<open>\s\<close> of a \<open>str\<close> pattern: the code points for which \<open>str.isspace\<close> holds.
\<close>

definition is_space :: "pychar \<Rightarrow> bool" where
  "is_space c \<longleftrightarrow>
     (9 \<le> c \<and> c \<le> 13) \<or> (28 \<le> c \<and> c \<le> 32) \<or> c = 0x85 \<or> c = 0xA0 \<or> c = 0x1680 \<or>
     (0x2000 \<le> c \<and> c \<le> 0x200A) \<or> c = 0x2028 \<or> c = 0x2029 \<or> c = 0x202F \<or>
     c = 0x205F \<or> c = 0x3000"

text \<open>
  The class \<open>\d\<close> of a \<open>str\<close> pattern is the Unicode category Nd, which consists of runs
  of ten consecutive code points with the values 0 to 9. \<open>decimal_zeros\<close> lists the code
  point of the digit zero of every run (Unicode 14.0, the table of CPython 3.11); the
  first run is the ASCII digits. \<open>int\<close> accepts the same characters.
\<close>

definition decimal_zeros :: "pychar list" where
  "decimal_zeros =
    [0x30, 0x660, 0x6F0, 0x7C0, 0x966, 0x9E6, 0xA66, 0xAE6, 0xB66, 0xBE6, 0xC66, 0xCE6,
     0xD66, 0xDE6, 0xE50, 0xED0, 0xF20, 0x1040, 0x1090, 0x17E0, 0x1810, 0x1946, 0x19D0,
     0x1A80, 0x1A90, 0x1B50, 0x1BB0, 0x1C40, 0x1C50, 0xA620, 0xA8D0, 0xA900, 0xA9D0,
     0xA9F0, 0xAA50, 0xABF0, 0xFF10, 0x104A0, 0x10D30, 0x11066, 0x110F0, 0x11136,
     0x111D0, 0x112F0, 0x11450, 0x114D0, 0x11650, 0x116C0, 0x11730, 0x118E0, 0x11950,
     0x11C50, 0x11D50, 0x11DA0, 0x16A60, 0x16AC0, 0x16B50, 0x1D7CE, 0x1D7D8, 0x1D7E2,
     0x1D7EC, 0x1D7F6, 0x1E140, 0x1E2F0, 0x1E950, 0x1FBF0]"

definition decimal_value :: "pychar \<Rightarrow> nat option" where
  "decimal_value c =
     (case List.find (\<lambda>z. z \<le> c \<and> c < z + 10) decimal_zeros of
        None \<Rightarrow> None
      | Some z \<Rightarrow> Some (c - z))"

definition is_decimal :: "pychar \<Rightarrow> bool" where
  "is_decimal c \<longleftrightarrow> decimal_value c \<noteq> None"

text \<open>The class \<open>[a-zA-Z@]\<close>.\<close>

definition is_letter :: "pychar \<Rightarrow> bool" where
  "is_letter c \<longleftrightarrow> (97 \<le> c \<and> c \<le> 122) \<or> (65 \<le> c \<and> c \<le> 90) \<or> c = 64"

text \<open>
  \<open>int(s)\<close> on a string: \<open>None\<close> is the \<open>ValueError\<close> of Python. The model reads a
  non-empty run of decimal digits. Python also accepts surrounding white space, a sign
  and single underscores between digits, all of which need at least two characters;
  the strings that reach \<open>int\<close> in this program have at most one (a captured \<open>\d\<close>, and
  the text of a node returned by \<open>read_next\<close>).
\<close>

definition py_int :: "pystr \<Rightarrow> int option" where
  "py_int s =
     (if s \<noteq> [] \<and> list_all is_decimal s
      then Some (foldl (\<lambda>v c. 10 * v + int (case decimal_value c of Some d \<Rightarrow> d | None \<Rightarrow> 0)) 0 s)
      else None)"

text \<open>\<open>str(n)\<close> of an integer, in decimal.\<close>

fun digits_of :: "nat \<Rightarrow> pystr" where
  "digits_of n = (if n < 10 then [48 + n] else digits_of (n div 10) @ [48 + n mod 10])"

declare digits_of.simps [simp del]

definition str_int :: "int \<Rightarrow> pystr" where
  "str_int n = (if n < 0 then 45 # digits_of (nat (- n)) else digits_of (nat n))"


section \<open>The tokenizer (\<open>ast.py\<close>, lines 13 to 68 and 150 to 158)\<close>

text \<open>The six compiled patterns; a token refers to its pattern by identity.\<close>

datatype pattern =
    TOKEN_COMMENT | TOKEN_COMMAND | TOKEN_PARAMETER | TOKEN_LCB | TOKEN_RCB | TOKEN_WHITESPACE

text \<open>
  \<open>match_here pat prev s\<close> is the match of the regular expression that begins at the
  head of \<open>s\<close>, where \<open>prev\<close> is the character before it (for the look-behind
  \<open>(?<!\\)\<close>): the length of the match and its captured groups. The repetitions are
  greedy, and no shorter repetition can succeed where the longest fails.
  \<^item> \<open>%(.*\n?)\<close>: a percent sign, the rest of the line, and its newline if there is one;
  \<^item> \<open>\\([a-zA-Z@]{2,}|.)\<close>: a backslash and then at least two letters, or else one
    character that is not a newline;
  \<^item> \<open>(#+)(\d)\<close>: a run of hashes and a digit;
  \<^item> \<open>(?<!\\)\{\<close> and \<open>(?<!\\)}\<close>: a brace that no backslash precedes;
  \<^item> \<open>(?<!\\)\s+\<close>: a run of white space that no backslash precedes.
\<close>

fun match_here :: "pattern \<Rightarrow> pychar option \<Rightarrow> pystr \<Rightarrow> (nat \<times> pystr list) option" where
  "match_here TOKEN_COMMENT prev s =
     (case s of
        [] \<Rightarrow> None
      | c # rest \<Rightarrow>
          if c = 37 then
            let line = takeWhile (\<lambda>x. x \<noteq> 10) rest;
                g = (case dropWhile (\<lambda>x. x \<noteq> 10) rest of [] \<Rightarrow> line | _ # _ \<Rightarrow> line @ [10])
            in Some (1 + length g, [g])
          else None)"
| "match_here TOKEN_COMMAND prev s =
     (case s of
        [] \<Rightarrow> None
      | c # rest \<Rightarrow>
          if c = 92 then
            let name = takeWhile is_letter rest
            in if 2 \<le> length name then Some (1 + length name, [name])
               else (case rest of
                       [] \<Rightarrow> None
                     | d # _ \<Rightarrow> if d \<noteq> 10 then Some (2, [[d]]) else None)
          else None)"
| "match_here TOKEN_PARAMETER prev s =
     (let hashes = takeWhile (\<lambda>x. x = 35) s
      in if hashes = [] then None
         else (case dropWhile (\<lambda>x. x = 35) s of
                 [] \<Rightarrow> None
               | d # _ \<Rightarrow> if is_decimal d then Some (length hashes + 1, [hashes, [d]]) else None))"
| "match_here TOKEN_LCB prev s =
     (case s of
        [] \<Rightarrow> None
      | c # _ \<Rightarrow> if c = 123 \<and> prev \<noteq> Some 92 then Some (1, []) else None)"
| "match_here TOKEN_RCB prev s =
     (case s of
        [] \<Rightarrow> None
      | c # _ \<Rightarrow> if c = 125 \<and> prev \<noteq> Some 92 then Some (1, []) else None)"
| "match_here TOKEN_WHITESPACE prev s =
     (let run = takeWhile is_space s
      in if run \<noteq> [] \<and> prev \<noteq> Some 92 then Some (length run, []) else None)"

text \<open>The match that begins at offset \<open>p\<close> of \<open>text\<close>: its end and its groups.\<close>

definition match_at :: "pattern \<Rightarrow> pystr \<Rightarrow> nat \<Rightarrow> (nat \<times> pystr list) option" where
  "match_at pat text p =
     (case match_here pat (if p = 0 then None else Some (text ! (p - 1))) (drop p text) of
        None \<Rightarrow> None
      | Some (n, gs) \<Rightarrow> Some (p + n, gs))"

text \<open>
  A matched token: \<open>Token(pattern, text, start, end, groups)\<close>. All tokens of a run
  refer to the same text, which \<open>get_text\<close> takes as an argument.
\<close>

record tok =
  pattern :: pattern
  start :: nat
  stop :: nat
  groups :: "pystr list"

text \<open>What \<open>tokenize\<close> yields: a matched token, or \<open>NoMatch(text, start, end)\<close>.\<close>

datatype token = Token tok | NoMatch nat nat

fun token_start :: "token \<Rightarrow> nat" where
  "token_start (Token t) = start t"
| "token_start (NoMatch a b) = a"

fun token_stop :: "token \<Rightarrow> nat" where
  "token_stop (Token t) = stop t"
| "token_stop (NoMatch a b) = b"

definition get_text :: "pystr \<Rightarrow> token \<Rightarrow> pystr" where
  "get_text text t = slice text (token_start t) (token_stop t)"

text \<open>
  \<open>pattern.search(text, pos)\<close>: the match at the least offset from \<open>pos\<close> on at which the
  pattern matches. The offset \<open>pos\<close> does not cut the text: a look-behind sees the
  character before it.
\<close>

definition search :: "pattern \<Rightarrow> pystr \<Rightarrow> nat \<Rightarrow> tok option" where
  "search pat text pos =
     (case List.find (\<lambda>p. match_at pat text p \<noteq> None) [pos ..< Suc (length text)] of
        None \<Rightarrow> None
      | Some p \<Rightarrow>
          (case match_at pat text p of
             None \<Rightarrow> None
           | Some (e, gs) \<Rightarrow> Some \<lparr>pattern = pat, start = p, stop = e, groups = gs\<rparr>))"

text \<open>
  \<open>_update_token(pos, start, pattern, t)\<close>: a token that has not been reached is kept,
  otherwise the pattern is searched again from \<open>pos\<close>. \<open>start\<close> is \<open>-1\<close> in the first call.
\<close>

definition update_token :: "pystr \<Rightarrow> nat \<Rightarrow> int \<Rightarrow> pattern \<Rightarrow> tok option \<Rightarrow> tok option" where
  "update_token text pos st pat t = (if st \<ge> int pos then t else search pat text pos)"

text \<open>\<open>min(tokens, key=lambda t: t.start)\<close>: the first token of the least start.\<close>

fun min_token :: "tok \<Rightarrow> tok list \<Rightarrow> tok" where
  "min_token t [] = t"
| "min_token t (u # us) = min_token (if start u < start t then u else t) us"

text \<open>
  The loop of \<open>tokenize\<close>; \<open>out\<close> collects what has been yielded. Nothing in the loop
  itself makes it end (a pattern that matches the empty string would be yielded for
  ever), so it is a partial function: \<open>None\<close> is a run that does not end.
\<close>

partial_function (option) tokenize_loop ::
  "pystr \<Rightarrow> tok list \<Rightarrow> nat \<Rightarrow> token list \<Rightarrow> token list option" where
  "tokenize_loop text tokens i out =
     (case tokens of
        t0 # ts \<Rightarrow>
          if i < length text then
            let token = min_token t0 ts;
                out1 = (if i < start token then out @ [NoMatch i (start token)] else out);
                out2 = out1 @ [Token token];
                i' = stop token
            in tokenize_loop text
                 (List.map_filter (\<lambda>t. update_token text i' (int (start t)) (pattern t) (Some t)) tokens)
                 i' out2
          else Some out
      | [] \<Rightarrow> Some (if i < length text then out @ [NoMatch i (length text)] else out))"

declare tokenize_loop.simps [code]

definition tokenize :: "pattern list \<Rightarrow> pystr \<Rightarrow> token list option" where
  "tokenize patterns text =
     tokenize_loop text (List.map_filter (\<lambda>p. update_token text 0 (- 1) p None) patterns) 0 []"

definition def_tokenizer :: "pattern list" where
  "def_tokenizer =
     [TOKEN_COMMENT, TOKEN_COMMAND, TOKEN_PARAMETER, TOKEN_LCB, TOKEN_RCB, TOKEN_WHITESPACE]"


section \<open>Errors\<close>

text \<open>
  Every error of the program is a \<open>ValueError\<close> with its own message; the constructors
  name the messages. The last four are the errors the interpreter raises itself.
  \<^item> \<open>InvalidInput\<close>: "file and text can't both be set or unset!"
  \<^item> \<open>InvalidTokenType\<close>: "Invalid token type"
  \<^item> \<open>UnbalancedBrackets\<close>: "Number of {s and }s don't match or the order is incorrect"
  \<^item> \<open>RecursionLimitExceeded\<close>: "Max recursion level reached"
  \<^item> \<open>UnexpectedEndOfInput\<close>: "Unexpected end of tokens"
  \<^item> \<open>MalformedMacroName\<close>: "Incorrectly formatted command name"
  \<^item> \<open>MalformedArgumentCount\<close>: "Incorrectly formatted number of arguments"
  \<^item> \<open>MalformedParameter\<close>: "Number of hashes in parameter must be power of 2"
  \<^item> \<open>DuplicateMacro\<close>: "Newcommand used for existing command" and
    "Newenvironment used for existing environment"
\<close>

datatype error =
    InvalidInput | InvalidTokenType | UnbalancedBrackets | RecursionLimitExceeded
  | UnexpectedEndOfInput | MalformedMacroName | MalformedArgumentCount | MalformedParameter
  | DuplicateMacro
  | PyValueError | PyIndexError | PyTypeError | PyAttributeError

text \<open>A call returns a value or raises: \<open>Inl\<close> is the error raised.\<close>

definition ebind :: "error + 'a \<Rightarrow> ('a \<Rightarrow> error + 'b) \<Rightarrow> error + 'b" where
  "ebind x f = (case x of Inl e \<Rightarrow> Inl e | Inr v \<Rightarrow> f v)"

text \<open>A call that may also run for ever: \<open>None\<close> is the run that does not end.\<close>

definition mbind ::
  "(error + 'a) option \<Rightarrow> ('a \<Rightarrow> (error + 'b) option) \<Rightarrow> (error + 'b) option" where
  "mbind x f = (case x of None \<Rightarrow> None | Some (Inl e) \<Rightarrow> Some (Inl e) | Some (Inr v) \<Rightarrow> f v)"

lemma mbind_mono [partial_function_mono]:
  assumes mf: "mono_option B" and mg: "\<And>y. mono_option (\<lambda>f. C y f)"
  shows "mono_option (\<lambda>f. mbind (B f) (\<lambda>y. C y f))"
proof -
  have eq: "\<And>f. mbind (B f) (\<lambda>y. C y f) =
      Option.bind (B f) (\<lambda>r. case r of Inl e \<Rightarrow> Some (Inl e) | Inr v \<Rightarrow> C v f)"
    by (auto simp: mbind_def split: option.splits sum.splits)
  show ?thesis
    unfolding eq
  proof (rule bind_mono [OF mf])
    fix y
    show "mono_option (\<lambda>f. case y of Inl e \<Rightarrow> Some (Inl e) | Inr v \<Rightarrow> C v f)"
      by (cases y) (simp_all add: mg option.const_mono)
  qed
qed


section \<open>The tree (\<open>ast.py\<close>, lines 71 to 194)\<close>

text \<open>
  The number of hashes of a parameter is an \<open>int\<close> when the parser sets it and a
  \<open>float\<close> once \<open>_replace_parameters\<close> has halved it (\<open>/=\<close> is true division). Halving
  is exact on the floats that can arise from a text, so a float is its rational value.
\<close>

datatype pynum = PyInt int | PyFloat rat

text \<open>
  The node classes. A leaf carries its \<open>data\<close>, a parameter \<open>num_hashes\<close> and \<open>param\<close>,
  a group its \<open>children\<close>. The tree is a value: the \<open>parent\<close> reference of a node is the
  position of the node in the tree, and the functions that follow it take the parent as
  an argument. The \<open>data\<close> slot of a group is empty in every tree that \<open>to_ast\<close> or \<open>copy\<close>
  builds; what a traversal stores there is kept with the traversal (see \<open>par\<close> below).
\<close>

datatype node =
    TextNode pystr
  | WhitespaceNode pystr
  | CommandNode pystr
  | CommentNode pystr
  | ParameterNode pynum int
  | GroupNode "node list"
  | BracketNode "node list"

fun is_group :: "node \<Rightarrow> bool" where
  "is_group (GroupNode cs) = True"
| "is_group (BracketNode cs) = True"
| "is_group _ = False"

fun children_of :: "node \<Rightarrow> node list" where
  "children_of (GroupNode cs) = cs"
| "children_of (BracketNode cs) = cs"
| "children_of _ = []"

text \<open>The same group object with a new list of children.\<close>

fun set_children :: "node \<Rightarrow> node list \<Rightarrow> node" where
  "set_children (GroupNode _) cs = GroupNode cs"
| "set_children (BracketNode _) cs = BracketNode cs"
| "set_children n cs = n"

fun is_text :: "node \<Rightarrow> bool" where
  "is_text (TextNode d) = True"
| "is_text _ = False"

fun is_whitespace :: "node \<Rightarrow> bool" where
  "is_whitespace (WhitespaceNode d) = True"
| "is_whitespace _ = False"

fun is_comment :: "node \<Rightarrow> bool" where
  "is_comment (CommentNode d) = True"
| "is_comment _ = False"

fun is_bracket :: "node \<Rightarrow> bool" where
  "is_bracket (BracketNode cs) = True"
| "is_bracket _ = False"

text \<open>
  \<open>__str__\<close>. \<open>'#' * num_hashes\<close> is the empty string for an \<open>int\<close> below one and a
  \<open>TypeError\<close> for a \<open>float\<close>.
\<close>

fun str_node :: "node \<Rightarrow> error + pystr"
  and str_nodes :: "node list \<Rightarrow> error + pystr" where
  "str_node (TextNode d) = Inr d"
| "str_node (WhitespaceNode d) = Inr d"
| "str_node (CommandNode d) = Inr (92 # d)"
| "str_node (CommentNode d) = Inr (37 # d)"
| "str_node (ParameterNode h i) =
     (case h of
        PyInt k \<Rightarrow> Inr (replicate (nat k) 35 @ str_int i)
      | PyFloat r \<Rightarrow> Inl PyTypeError)"
| "str_node (GroupNode cs) = str_nodes cs"
| "str_node (BracketNode cs) = ebind (str_nodes cs) (\<lambda>s. Inr (123 # s @ [125]))"
| "str_nodes [] = Inr []"
| "str_nodes (c # cs) = ebind (str_node c) (\<lambda>s. ebind (str_nodes cs) (\<lambda>r. Inr (s @ r)))"

text \<open>
  \<open>copy\<close>: a leaf is copied with its fields, a group is a new object of the same class
  that receives the copies of the children. There is no check of the depth here.
\<close>

fun copy_node :: "node \<Rightarrow> node" where
  "copy_node (GroupNode cs) = GroupNode (map copy_node cs)"
| "copy_node (BracketNode cs) = BracketNode (map copy_node cs)"
| "copy_node (TextNode d) = TextNode d"
| "copy_node (WhitespaceNode d) = WhitespaceNode d"
| "copy_node (CommandNode d) = CommandNode d"
| "copy_node (CommentNode d) = CommentNode d"
| "copy_node (ParameterNode h i) = ParameterNode h i"

text \<open>\<open>self.take(node)\<close>, on the children of \<open>self\<close>.\<close>

definition take_node :: "node list \<Rightarrow> node \<Rightarrow> node list" where
  "take_node cs n = (if is_group n then cs @ children_of n else cs @ [n])"


section \<open>The tree builder (\<open>to_ast\<close>, lines 197 to 236)\<close>

text \<open>
  The cursor \<open>curr\<close> is the list \<open>cur\<close> of the children it has so far, and \<open>stack\<close> holds,
  for every bracket group that is open, innermost first, the children its parent had
  when it was opened. The cursor is a \<open>BracketNode\<close> exactly when the stack is not
  empty; \<open>curr = curr.parent\<close> completes the parent with the finished group. The value
  returned is the cursor, not the root.
\<close>

fun to_ast_loop :: "pystr \<Rightarrow> token list \<Rightarrow> node list \<Rightarrow> node list list \<Rightarrow> error + node" where
  "to_ast_loop text [] cur stack =
     Inr (case stack of [] \<Rightarrow> GroupNode cur | _ # _ \<Rightarrow> BracketNode cur)"
| "to_ast_loop text (t # ts) cur stack =
     (case t of
        NoMatch a b \<Rightarrow> to_ast_loop text ts (cur @ [TextNode (get_text text t)]) stack
      | Token k \<Rightarrow>
          (case pattern k of
             TOKEN_WHITESPACE \<Rightarrow>
               to_ast_loop text ts (cur @ [WhitespaceNode (get_text text t)]) stack
           | TOKEN_PARAMETER \<Rightarrow>
               (case groups k of
                  g0 # g1 # _ \<Rightarrow>
                    (case py_int g1 of
                       None \<Rightarrow> Inl PyValueError
                     | Some v \<Rightarrow>
                         to_ast_loop text ts
                           (cur @ [ParameterNode (PyInt (int (length g0))) v]) stack)
                | _ \<Rightarrow> Inl PyIndexError)
           | TOKEN_LCB \<Rightarrow> to_ast_loop text ts [] (cur # stack)
           | TOKEN_RCB \<Rightarrow>
               (case stack of
                  [] \<Rightarrow> Inl UnbalancedBrackets
                | parent # stack' \<Rightarrow> to_ast_loop text ts (parent @ [BracketNode cur]) stack')
           | TOKEN_COMMENT \<Rightarrow>
               (case groups k of
                  g0 # _ \<Rightarrow> to_ast_loop text ts (cur @ [CommentNode g0]) stack
                | [] \<Rightarrow> Inl PyIndexError)
           | TOKEN_COMMAND \<Rightarrow>
               (case groups k of
                  g0 # _ \<Rightarrow> to_ast_loop text ts (cur @ [CommandNode g0]) stack
                | [] \<Rightarrow> Inl PyIndexError)))"

text \<open>
  \<open>to_ast(text, file, tokenizer)\<close>; \<open>file\<close> stands for what reading it gives. Exactly one
  of \<open>text\<close> and \<open>file\<close> is given, and no tokenizer means \<open>def_tokenizer\<close>.
\<close>

definition to_ast ::
  "pystr option \<Rightarrow> pystr option \<Rightarrow> pattern list option \<Rightarrow> (error + node) option" where
  "to_ast text file tokenizer =
     (if (file = None) = (text = None) then Some (Inl InvalidInput)
      else
        (case (case file of Some f \<Rightarrow> Some f | None \<Rightarrow> text) of
           None \<Rightarrow> Some (Inl InvalidInput)
         | Some txt \<Rightarrow>
             (case tokenize (case tokenizer of None \<Rightarrow> def_tokenizer | Some ps \<Rightarrow> ps) txt of
                None \<Rightarrow> None
              | Some toks \<Rightarrow> Some (to_ast_loop txt toks [] []))))"


section \<open>The rewrite engine (\<open>GroupNode.filter\<close>, lines 113 to 144)\<close>

definition MAX_RECURSE_LEVEL :: nat where
  "MAX_RECURSE_LEVEL = 256"

text \<open>
  A rule \<open>filter_func(n, children)\<close> sees the node, the queue of the siblings that
  remain, and, through \<open>n.parent\<close>, the group that is being rebuilt. \<open>par\<close> is that
  group as the rules of this program use it: its \<open>children\<close> (the nodes added so far),
  its \<open>data\<close> slot, and the \<open>data\<close> slot of its own parent, which a rule only reads. A
  rule returns the node to keep, if any, with the new state of the parent, of the queue
  and of whatever else it changes (\<open>'s\<close>). The parent is \<open>None\<close> in the call on the root.
\<close>

record 'd par =
  children :: "node list"
  data :: "'d option"
  parent_data :: "'d option"

type_synonym ('d, 's) filter_func =
  "'d par option \<Rightarrow> node \<Rightarrow> node list \<Rightarrow> 's \<Rightarrow>
   (error + (node option \<times> 'd par option \<times> node list \<times> 's)) option"

text \<open>
  The \<open>while children\<close> loop of \<open>_do_filter(node, level)\<close>: \<open>node\<close> is the group that is
  rebuilt and \<open>queue\<close> the deque. A group that the rule returns is filtered one level
  down before it is added; its own \<open>data\<close> slot is empty and its parent is \<open>node\<close>. The
  check of \<open>level\<close> that opens \<open>_do_filter\<close> is made here before the loop of the inner
  group starts (\<open>filter_loop_Cons\<close> below states the loop with the call of \<open>do_filter\<close>).
  The queue can grow, so the loop need not end: \<open>None\<close> is a run that does not.
\<close>

partial_function (option) filter_loop ::
  "('d, 's) filter_func \<Rightarrow> nat \<Rightarrow> 'd par \<Rightarrow> node list \<Rightarrow> 's \<Rightarrow> (error + ('d par \<times> 's)) option"
  where
  "filter_loop filter_func level node queue s =
     (case queue of
        [] \<Rightarrow> Some (Inr (node, s))
      | n # rest \<Rightarrow>
          mbind (filter_func (Some node) n rest s) (\<lambda>(r, parent, queue', s').
            let node' = (case parent of Some p \<Rightarrow> p | None \<Rightarrow> node) in
            case r of
              None \<Rightarrow> filter_loop filter_func level node' queue' s'
            | Some m \<Rightarrow>
                if is_group m then
                  if Suc level > MAX_RECURSE_LEVEL then Some (Inl RecursionLimitExceeded)
                  else
                    mbind (filter_loop filter_func (Suc level)
                             \<lparr>children = [], data = None, parent_data = data node'\<rparr>
                             (children_of m) s')
                      (\<lambda>(inner, s'').
                         filter_loop filter_func level
                           (node'\<lparr>children := children node' @ [set_children m (children inner)]\<rparr>)
                           queue' s'')
                else
                  filter_loop filter_func level (node'\<lparr>children := children node' @ [m]\<rparr>)
                    queue' s'))"

declare filter_loop.simps [code]

text \<open>
  \<open>_do_filter(node, level)\<close>, for a group whose \<open>data\<close> slot holds \<open>node_data\<close> and whose
  parent's holds \<open>pdata\<close>. It returns the group with its new children, what its \<open>data\<close>
  slot holds in the end, and the state.
\<close>

definition do_filter ::
  "('d, 's) filter_func \<Rightarrow> node \<Rightarrow> nat \<Rightarrow> 'd option \<Rightarrow> 'd option \<Rightarrow> 's \<Rightarrow>
   (error + (node \<times> 'd option \<times> 's)) option" where
  "do_filter filter_func node level node_data pdata s =
     (if level > MAX_RECURSE_LEVEL then Some (Inl RecursionLimitExceeded)
      else if \<not> is_group node then Some (Inl PyAttributeError)
      else
        mbind (filter_loop filter_func level
                 \<lparr>children = [], data = node_data, parent_data = pdata\<rparr> (children_of node) s)
          (\<lambda>(p, s'). Some (Inr (set_children node (children p), data p, s'))))"

text \<open>
  \<open>self.filter(filter_func, should_copy)\<close>, for a group \<open>self\<close> whose \<open>data\<close> slot holds
  \<open>self_data\<close> (the copy is a new object with an empty slot). The rule is called on the
  root with an empty queue, which is dropped, and the root it returns is filtered at
  level 0.
\<close>

definition filter_node ::
  "('d, 's) filter_func \<Rightarrow> node \<Rightarrow> 'd option \<Rightarrow> bool \<Rightarrow> 's \<Rightarrow>
   (error + (node \<times> 'd option \<times> 's)) option" where
  "filter_node filter_func self self_data should_copy s =
     mbind (filter_func None (if should_copy then copy_node self else self) [] s)
       (\<lambda>(r, parent, queue, s').
          case r of
            None \<Rightarrow> Some (Inl PyAttributeError)
          | Some obj \<Rightarrow>
              do_filter filter_func obj 0 (if should_copy then None else self_data) None s')"

text \<open>
  \<open>clear_data\<close> (lines 255 to 264): the rule empties the \<open>data\<close> slot of every group and
  keeps every node, and the tree is filtered in place.
\<close>

definition clear_data_rule :: "('d, 's) filter_func" where
  "clear_data_rule parent n queue s = Some (Inr (Some n, parent, queue, s))"

definition clear_data :: "node \<Rightarrow> (error + node) option" where
  "clear_data tree =
     mbind (filter_node (clear_data_rule :: (unit, unit) filter_func) tree None False ())
       (\<lambda>(r, d, s). Some (Inr r))"


section \<open>Reading from the queue (\<open>read_next\<close>, lines 267 to 286)\<close>

text \<open>
  \<open>read_next(it, error)\<close> returns the node, if there is one, and the queue it leaves.
  \<open>it.popleft()\<close> on the empty queue is the \<open>IndexError\<close> that ends the loop.
\<close>

fun read_next :: "node list \<Rightarrow> bool \<Rightarrow> error + (node option \<times> node list)" where
  "read_next [] err = (if err then Inl UnexpectedEndOfInput else Inr (None, []))"
| "read_next (n # it) err =
     (if \<not> (is_whitespace n \<or> is_comment n) then
        (case n of
           TextNode d \<Rightarrow>
             if length d > 1 then Inr (Some (TextNode [hd d]), TextNode (tl d) # it)
             else Inr (Some n, it)
         | _ \<Rightarrow> Inr (Some n, it))
      else read_next it err)"

text \<open>
  \<open>read_next(it)\<close> with the default \<open>error=True\<close>, which returns a node or raises
  (\<open>read_next_error\<close> below shows that the second case does not arise).
\<close>

definition read_next1 :: "node list \<Rightarrow> error + (node \<times> node list)" where
  "read_next1 it =
     (case read_next it True of
        Inl e \<Rightarrow> Inl e
      | Inr (None, it') \<Rightarrow> Inl UnexpectedEndOfInput
      | Inr (Some n, it') \<Rightarrow> Inr (n, it'))"


section \<open>The macro engine (\<open>demacro.py\<close>)\<close>

subsection \<open>Reading the parts of a definition (lines 16 to 96)\<close>

text \<open>\<open>_filter_children(node, filter_ws)\<close>: the only child that counts, if there is just one.\<close>

definition filter_children :: "node \<Rightarrow> bool \<Rightarrow> node option" where
  "filter_children node filter_ws =
     (if is_group node then
        (case filter (\<lambda>n. \<not> is_comment n \<and> (\<not> is_whitespace n \<or> \<not> filter_ws)) (children_of node) of
           [c] \<Rightarrow> Some c
         | _ \<Rightarrow> None)
      else None)"

text \<open>
  A bound on the reads that a queue allows: \<open>read_next\<close> removes a node, or shortens a
  text by its first character.
\<close>

fun node_weight :: "node \<Rightarrow> nat" where
  "node_weight (TextNode d) = Suc (length d)"
| "node_weight _ = 1"

definition queue_weight :: "node list \<Rightarrow> nat" where
  "queue_weight it = sum_list (map node_weight it)"

lemma read_next_weight:
  "read_next it err = Inr (Some n, it') \<Longrightarrow> queue_weight it' < queue_weight it"
proof (induction it)
  case Nil
  then show ?case by (simp split: if_splits)
next
  case (Cons m it)
  show ?case
  proof (cases "is_whitespace m \<or> is_comment m")
    case True
    then have "read_next it err = Inr (Some n, it')" using Cons.prems by simp
    then have "queue_weight it' < queue_weight it" by (rule Cons.IH)
    then show ?thesis by (simp add: queue_weight_def)
  next
    case False
    then show ?thesis
      using Cons.prems by (cases m) (auto simp: queue_weight_def split: if_splits)
  qed
qed

lemma read_next1_weight:
  "read_next1 it = Inr (n, it') \<Longrightarrow> queue_weight it' < queue_weight it"
  by (auto simp: read_next1_def split: sum.splits option.splits dest: read_next_weight)

text \<open>
  \<open>_read_until_end_bracket(it)\<close>; \<open>acc\<close> is what the group \<open>node\<close> holds so far. The loop
  ends with the text \<open>]\<close> or with the error of \<open>read_next\<close>.
\<close>

function read_until_end_bracket :: "node list \<Rightarrow> node list \<Rightarrow> error + (node \<times> node list)" where
  "read_until_end_bracket acc it =
     (case read_next1 it of
        Inl e \<Rightarrow> Inl e
      | Inr (n, it') \<Rightarrow>
          if n = TextNode [93] then Inr (GroupNode acc, it')
          else read_until_end_bracket (acc @ [n]) it')"
  by pat_completeness auto
termination
  by (relation "measure (\<lambda>(acc, it). queue_weight it)") (auto dest: read_next1_weight)

declare read_until_end_bracket.simps [simp del]

text \<open>\<open>_read_command_name(it)\<close>: a star is skipped, a group of one command is opened.\<close>

definition read_command_name :: "node list \<Rightarrow> error + (pystr \<times> node list)" where
  "read_command_name it =
     ebind (read_next1 it) (\<lambda>(n, it1).
       ebind (if n = TextNode [42] then read_next1 it1 else Inr (n, it1)) (\<lambda>(n, it2).
         case (case filter_children n True of Some c \<Rightarrow> c | None \<Rightarrow> n) of
           CommandNode d \<Rightarrow> Inr (d, it2)
         | _ \<Rightarrow> Inl MalformedMacroName))"

text \<open>\<open>_extract_arguments(node)\<close>: the number of arguments, from 0 to 9.\<close>

definition extract_arguments :: "node \<Rightarrow> error + int" where
  "extract_arguments node =
     (case (case filter_children node True of Some c \<Rightarrow> c | None \<Rightarrow> node) of
        TextNode d \<Rightarrow>
          (case py_int d of
             Some a \<Rightarrow> if 0 \<le> a \<and> a < 10 then Inr a else Inl MalformedArgumentCount
           | None \<Rightarrow> Inl MalformedArgumentCount)
      | _ \<Rightarrow> Inl MalformedArgumentCount)"

text \<open>\<open>_extract_optional_argument(node)\<close>: one pair of braces is removed.\<close>

definition extract_optional_argument :: "node \<Rightarrow> node" where
  "extract_optional_argument node =
     GroupNode (take_node []
       (case filter_children node False of
          Some (BracketNode cs) \<Rightarrow> BracketNode cs
        | _ \<Rightarrow> node))"

text \<open>
  \<open>_get_bracket_args(it)\<close>: the number of arguments, the default of the first one, and
  the node that follows them.
\<close>

definition get_bracket_args :: "node list \<Rightarrow> error + (int \<times> node option \<times> node \<times> node list)" where
  "get_bracket_args it =
     ebind (read_next1 it) (\<lambda>(temp, it1).
       ebind (if temp = TextNode [91] then
                ebind (read_until_end_bracket [] it1) (\<lambda>(g, it2).
                  ebind (extract_arguments g) (\<lambda>a.
                    ebind (read_next1 it2) (\<lambda>(temp', it3). Inr (a, temp', it3))))
              else Inr (0, temp, it1)) (\<lambda>(a, temp, it3).
         ebind (if temp = TextNode [91] then
                  ebind (read_until_end_bracket [] it3) (\<lambda>(g, it4).
                    ebind (read_next1 it4) (\<lambda>(temp', it5).
                      Inr (Some (extract_optional_argument g), temp', it5)))
                else Inr (None, temp, it3)) (\<lambda>(default, temp, it5).
           Inr (a, default, temp, it5))))"


subsection \<open>Substitution of the parameters (lines 99 to 113)\<close>

text \<open>\<open>num_hashes == 1\<close>, \<open>num_hashes /= 2\<close> and \<open>int(num_hashes) == num_hashes\<close>.\<close>

fun num_is_one :: "pynum \<Rightarrow> bool" where
  "num_is_one (PyInt k) = (k = 1)"
| "num_is_one (PyFloat r) = (r = 1)"

fun halve :: "pynum \<Rightarrow> pynum" where
  "halve (PyInt k) = PyFloat (of_int k / 2)"
| "halve (PyFloat r) = PyFloat (r / 2)"

fun is_integral :: "pynum \<Rightarrow> bool" where
  "is_integral (PyInt k) = True"
| "is_integral (PyFloat r) = (of_int (if 0 \<le> r then \<lfloor>r\<rfloor> else \<lceil>r\<rceil>) = r)"

text \<open>\<open>xs[i]\<close>: a negative index counts from the end.\<close>

definition py_index :: "'a list \<Rightarrow> int \<Rightarrow> error + 'a" where
  "py_index xs i =
     (if 0 \<le> i \<and> i < int (length xs) then Inr (xs ! nat i)
      else if i < 0 \<and> - int (length xs) \<le> i then Inr (xs ! nat (int (length xs) + i))
      else Inl PyIndexError)"

text \<open>
  \<open>_do_replace\<close>: the copy of the argument goes to the parent at once (\<open>n.parent.take\<close>),
  not to the queue, and the parameter is dropped.
\<close>

definition do_replace :: "node list \<Rightarrow> ('d, 's) filter_func" where
  "do_replace params parent n queue s =
     (case n of
        ParameterNode h i \<Rightarrow>
          if num_is_one h then
            (case parent of
               None \<Rightarrow> Some (Inl PyAttributeError)
             | Some p \<Rightarrow>
                 (case py_index params (i - 1) of
                    Inl e \<Rightarrow> Some (Inl e)
                  | Inr a \<Rightarrow>
                      Some (Inr (None, Some (p\<lparr>children := take_node (children p) (copy_node a)\<rparr>),
                                 queue, s))))
          else if \<not> is_integral (halve h) then Some (Inl MalformedParameter)
          else Some (Inr (Some (ParameterNode (halve h) i), parent, queue, s))
      | _ \<Rightarrow> Some (Inr (Some n, parent, queue, s)))"

definition replace_parameters :: "node \<Rightarrow> node list \<Rightarrow> (error + node) option" where
  "replace_parameters body params =
     mbind (filter_node (do_replace params :: (unit, unit) filter_func) body None True ())
       (\<lambda>(r, d, s). Some (Inr r))"


subsection \<open>Expansion (lines 116 to 152)\<close>

text \<open>
  An entry of the macro table: \<open>{'args': ..., 'default': ..., 'body': ...}\<close>. The body is
  a group, or a callable that is given the arguments.
\<close>

datatype macro_body = Template node | Native "node list \<Rightarrow> error + node"

record macro =
  args :: int
  default_arg :: "node option"
  body :: macro_body

type_synonym table = "pystr \<Rightarrow> macro option"

text \<open>\<open>for _ in range(args): tokens.append(read_next(it))\<close>.\<close>

fun read_args :: "nat \<Rightarrow> node list \<Rightarrow> node list \<Rightarrow> error + (node list \<times> node list)" where
  "read_args 0 tokens it = Inr (tokens, it)"
| "read_args (Suc k) tokens it =
     ebind (read_next1 it) (\<lambda>(n, it'). read_args k (tokens @ [n]) it')"

text \<open>
  \<open>_expand_macro(it, data, parent)\<close>: the arguments are read from the queue, and the
  children of the result are put at its front, in their order, with \<open>parent\<close> as their
  parent.
\<close>

definition expand_macro :: "node list \<Rightarrow> macro \<Rightarrow> (error + node list) option" where
  "expand_macro it entry =
     mbind (Some
        (if args entry > 0 then
           ebind (case default_arg entry of
                    Some d \<Rightarrow>
                      ebind (read_next it False) (\<lambda>(temp, it1).
                        if temp = Some (TextNode [91]) then
                          ebind (read_until_end_bracket [] it1) (\<lambda>(g, it2).
                            Inr (args entry - 1,
                                 [case filter_children g False of
                                    Some (BracketNode cs) \<Rightarrow> BracketNode cs
                                  | _ \<Rightarrow> g],
                                 it2))
                        else
                          Inr (args entry - 1, [d],
                               (case temp of Some t \<Rightarrow> t # it1 | None \<Rightarrow> it1)))
                  | None \<Rightarrow> Inr (args entry, [], it))
             (\<lambda>(k, tokens, it'). read_args (nat k) tokens it')
         else Inr ([], it)))
       (\<lambda>(tokens, it').
          mbind (case body entry of
                   Native f \<Rightarrow> Some (f tokens)
                 | Template b \<Rightarrow> replace_parameters b tokens)
            (\<lambda>temp.
               if is_group temp then Some (Inr (children_of temp @ it'))
               else Some (Inl PyAttributeError)))"


subsection \<open>The rule (\<open>_process\<close>, lines 155 to 237)\<close>

text \<open>
  The macro tables are dictionaries that several groups can refer to, so they live in a
  store: \<open>dicts\<close> maps a reference to the table it holds, and \<open>fresh\<close> is the next
  reference. The \<open>data\<close> slot of a group holds \<open>{'macros': ..., 'copied': ...}\<close>, with
  the reference of its table.
\<close>

record heap =
  dicts :: "nat \<Rightarrow> table"
  fresh :: nat

record scope =
  macros :: nat
  copied :: bool

text \<open>\<open>macros.copy()\<close> and \<open>macros[name] = data\<close>.\<close>

definition dict_copy :: "heap \<Rightarrow> nat \<Rightarrow> nat \<times> heap" where
  "dict_copy h a = (fresh h, h\<lparr>dicts := (dicts h)(fresh h := dicts h a), fresh := Suc (fresh h)\<rparr>)"

definition dict_set :: "heap \<Rightarrow> nat \<Rightarrow> pystr \<Rightarrow> macro \<Rightarrow> heap" where
  "dict_set h a name entry = h\<lparr>dicts := (dicts h)(a := (dicts h a)(name := Some entry))\<rparr>"

text \<open>
  Lines 160 and 161: a group without data takes the table of its parent, by reference.
  A parent without data cannot be read.
\<close>

definition current_scope :: "scope par \<Rightarrow> error + scope" where
  "current_scope p =
     (case data p of
        Some sc \<Rightarrow> Inr sc
      | None \<Rightarrow>
          (case parent_data p of
             None \<Rightarrow> Inl PyAttributeError
           | Some pd \<Rightarrow> Inr \<lparr>macros = macros pd, copied = False\<rparr>))"

text \<open>\<open>_check_macros()\<close>: the first definition of a group copies the table.\<close>

definition check_macros :: "scope \<Rightarrow> heap \<Rightarrow> scope \<times> heap" where
  "check_macros sc h =
     (if \<not> copied sc then
        (let (a, h') = dict_copy h (macros sc) in (\<lparr>macros = a, copied = True\<rparr>, h'))
      else (sc, h))"

text \<open>
  Lines 192 to 195 and 221 to 224: the name of an environment is the text of the next
  node, without its braces if it is a bracket group.
\<close>

definition read_name :: "node list \<Rightarrow> error + (node \<times> pystr \<times> node list)" where
  "read_name it =
     ebind (read_next1 it) (\<lambda>(temp, it').
       ebind (str_node temp) (\<lambda>name.
         Inr (temp, if is_bracket temp then butlast (tl name) else name, it')))"

text \<open>
  Lines 156 and 157 return a node that has no parent as it is. The root has none; neither
  has the one-character text node that \<open>read_next\<close> builds, when it comes back to the
  queue. Such a text node comes back only after a command of the same group has been
  handled, so the data of the group is set already and the general path returns the
  same: the node, kept, with the group unchanged.
\<close>

definition process :: "(scope, heap) filter_func" where
  "process parent n queue h =
     (case parent of
        None \<Rightarrow> Some (Inr (Some n, parent, queue, h))
      | Some p0 \<Rightarrow>
          mbind (Some (current_scope p0)) (\<lambda>sc.
            let p = p0\<lparr>data := Some sc\<rparr>; table = dicts h (macros sc) in
            case n of
              CommandNode cmd \<Rightarrow>
                if cmd = ustr ''newcommand'' \<or> cmd = ustr ''renewcommand'' \<or>
                   cmd = ustr ''providecommand'' then
                  Some (ebind (read_command_name queue) (\<lambda>(name, q1).
                    ebind (get_bracket_args q1) (\<lambda>(a, default, temp, q2).
                      let entry = \<lparr>args = a, default_arg = default,
                                   body = Template (GroupNode (take_node [] temp))\<rparr> in
                      if cmd = ustr ''newcommand'' \<and> table name \<noteq> None then Inl DuplicateMacro
                      else if cmd \<noteq> ustr ''providecommand'' \<or> table name = None then
                        (let (sc', h') = check_macros sc h
                         in Inr (None, Some (p\<lparr>data := Some sc'\<rparr>), q2,
                                 dict_set h' (macros sc') name entry))
                      else Inr (None, Some p, q2, h))))
                else if cmd = ustr ''newenvironment'' \<or> cmd = ustr ''renewenvironment'' then
                  Some (ebind (read_name queue) (\<lambda>(temp, name, q1).
                    ebind (get_bracket_args q1) (\<lambda>(a, default, temp1, q2).
                      ebind (read_next1 q2) (\<lambda>(temp2, q3).
                        if cmd = ustr ''newenvironment'' \<and> table name \<noteq> None
                        then Inl DuplicateMacro
                        else
                          (let (sc', h') = check_macros sc h;
                               h1 = dict_set h' (macros sc') name
                                      \<lparr>args = a, default_arg = default,
                                       body = Template (GroupNode (take_node [] temp1))\<rparr>;
                               h2 = dict_set h1 (macros sc') (ustr ''end'' @ name)
                                      \<lparr>args = 0, default_arg = None,
                                       body = Template (GroupNode (take_node [] temp2))\<rparr>
                           in Inr (None, Some (p\<lparr>data := Some sc'\<rparr>), q3, h2))))))
                else
                  (case table cmd of
                     Some entry \<Rightarrow>
                       mbind (expand_macro queue entry) (\<lambda>q'. Some (Inr (None, Some p, q', h)))
                   | None \<Rightarrow>
                       if cmd = ustr ''begin'' \<or> cmd = ustr ''end'' then
                         mbind (Some (read_name queue)) (\<lambda>(temp, name, q1).
                           case table (if cmd = ustr ''end'' then ustr ''end'' @ name else name) of
                             Some entry \<Rightarrow>
                               mbind (expand_macro q1 entry)
                                 (\<lambda>q'. Some (Inr (None, Some p, q', h)))
                           | None \<Rightarrow> Some (Inr (Some n, Some p, temp # q1, h)))
                       else Some (Inr (Some n, Some p, queue, h)))
            | _ \<Rightarrow> Some (Inr (Some n, Some p, queue, h))))"


subsection \<open>The entry point (\<open>Demacro.demacro\<close>, lines 246 to 253)\<close>

text \<open>
  \<open>demacro\<close> takes the table \<open>self.macros\<close> and the root, and returns the new tree with
  the table that \<open>self.macros\<close> is set to.
\<close>

definition demacro :: "table \<Rightarrow> node \<Rightarrow> (error + (node \<times> table)) option" where
  "demacro self_macros tree =
     mbind (filter_node process tree (Some \<lparr>macros = 0, copied = False\<rparr>) False
              \<lparr>dicts = (\<lambda>a. self_macros), fresh = 1\<rparr>)
       (\<lambda>(tree', d, h).
          case d of
            None \<Rightarrow> Some (Inl PyTypeError)
          | Some sc \<Rightarrow>
              mbind (clear_data tree') (\<lambda>r. Some (Inr (r, dicts h (macros sc)))))"



section \<open>Notions used in the statements\<close>

subsection \<open>Token sequences\<close>

text \<open>
  \<open>covers i toks j\<close>: the tokens span the offsets from \<open>i\<close> to \<open>j\<close>, each one beginning
  where the one before it ends, and none of them empty.
\<close>

fun covers :: "nat \<Rightarrow> token list \<Rightarrow> nat \<Rightarrow> bool" where
  "covers i [] j = (i = j)"
| "covers i (t # ts) j = (token_start t = i \<and> i < token_stop t \<and> covers (token_stop t) ts j)"

text \<open>
  \<open>chosen ps text i t\<close>: \<open>t\<close> is the next match, from the scan position \<open>i\<close>, of a
  matcher of the list \<open>ps\<close>; the next match of every matcher listed before it starts
  later, and the next match of every matcher listed after it does not start earlier.
\<close>

definition chosen :: "pattern list \<Rightarrow> pystr \<Rightarrow> nat \<Rightarrow> tok \<Rightarrow> bool" where
  "chosen ps text i t \<longleftrightarrow>
     (\<exists>ps1 ps2. ps = ps1 @ pattern t # ps2 \<and> search (pattern t) text i = Some t \<and>
        (\<forall>q \<in> set ps1. \<forall>u. search q text i = Some u \<longrightarrow> start t < start u) \<and>
        (\<forall>q \<in> set ps2. \<forall>u. search q text i = Some u \<longrightarrow> start t \<le> start u))"

text \<open>
  \<open>well_chosen ps text i toks\<close>: every matched token of the sequence is the chosen one
  at the scan position, which starts at \<open>i\<close> and moves to the end of each matched token.
\<close>

fun well_chosen :: "pattern list \<Rightarrow> pystr \<Rightarrow> nat \<Rightarrow> token list \<Rightarrow> bool" where
  "well_chosen ps text i [] = True"
| "well_chosen ps text i (NoMatch a b # ts) = well_chosen ps text i ts"
| "well_chosen ps text i (Token t # ts) = (chosen ps text i t \<and> well_chosen ps text (stop t) ts)"

text \<open>A matched token is a match of its pattern at its start.\<close>

fun matched :: "pystr \<Rightarrow> token \<Rightarrow> bool" where
  "matched text (Token k) =
     (start k \<le> length text \<and> match_at (pattern k) text (start k) = Some (stop k, groups k))"
| "matched text (NoMatch a b) = True"

subsection \<open>Braces and parameters\<close>

text \<open>
  The nesting of the brace tokens of a token sequence: \<open>brace_depth d toks\<close> is the
  number of groups that are open after \<open>toks\<close>, when \<open>d\<close> are open before, and \<open>None\<close>
  when a right brace comes with no group open. The brace tokens are balanced in valid
  nesting when \<open>brace_depth 0 toks = Some 0\<close>.
\<close>

fun is_brace :: "pattern \<Rightarrow> token \<Rightarrow> bool" where
  "is_brace p (Token k) = (pattern k = p)"
| "is_brace p (NoMatch a b) = False"

fun brace_depth :: "nat \<Rightarrow> token list \<Rightarrow> nat option" where
  "brace_depth d [] = Some d"
| "brace_depth d (t # ts) =
     (if is_brace TOKEN_LCB t then brace_depth (Suc d) ts
      else if is_brace TOKEN_RCB t then (case d of 0 \<Rightarrow> None | Suc d' \<Rightarrow> brace_depth d' ts)
      else brace_depth d ts)"

text \<open>
  The same on the text itself: the braces of a text that no backslash precedes, in
  their order, and their nesting.
\<close>

fun unescaped_braces :: "pychar option \<Rightarrow> pystr \<Rightarrow> pychar list" where
  "unescaped_braces prev [] = []"
| "unescaped_braces prev (c # cs) =
     (if (c = 123 \<or> c = 125) \<and> prev \<noteq> Some 92 then c # unescaped_braces (Some c) cs
      else unescaped_braces (Some c) cs)"

fun nesting :: "nat \<Rightarrow> pychar list \<Rightarrow> nat option" where
  "nesting d [] = Some d"
| "nesting d (c # cs) =
     (if c = 123 then nesting (Suc d) cs
      else (case d of 0 \<Rightarrow> None | Suc d' \<Rightarrow> nesting d' cs))"

subsection \<open>Expansion of a text\<close>

text \<open>
  The text is parsed, the tree is expanded against the table, and the result is turned
  into a string again.
\<close>

definition expand_text :: "table \<Rightarrow> pystr \<Rightarrow> (error + pystr) option" where
  "expand_text self_macros text =
     mbind (to_ast (Some text) None None) (\<lambda>tree.
       mbind (demacro self_macros tree) (\<lambda>(tree', t). Some (str_node tree')))"

text \<open>
  The table that \<open>_process\<close> consults for a node whose parent is \<open>p\<close> (lines 160 to 162),
  if it can be read.
\<close>

definition consulted :: "scope par \<Rightarrow> heap \<Rightarrow> table option" where
  "consulted p h = (case current_scope p of Inl e \<Rightarrow> None | Inr sc \<Rightarrow> Some (dicts h (macros sc)))"

text \<open>The commands that define a macro or an environment.\<close>

definition is_definition_command :: "pystr \<Rightarrow> bool" where
  "is_definition_command cmd \<longleftrightarrow>
     cmd = ustr ''newcommand'' \<or> cmd = ustr ''renewcommand'' \<or> cmd = ustr ''providecommand'' \<or>
     cmd = ustr ''newenvironment'' \<or> cmd = ustr ''renewenvironment''"

subsection \<open>The store of the macro tables\<close>

text \<open>
  \<open>own p\<close>: the reference of the table that the group \<open>p\<close> has copied for itself, if it
  has. \<open>preserves p s p' s'\<close>: from the store \<open>s\<close> to the store \<open>s'\<close> no reference is
  lost, every table of \<open>s\<close> but the one that \<open>p\<close> owns is the same in \<open>s'\<close>, and a table
  that \<open>p'\<close> owns is the one of \<open>p\<close> or a new one.
\<close>

definition own :: "scope par \<Rightarrow> nat set" where
  "own p = (case data p of Some sc \<Rightarrow> if copied sc then {macros sc} else {} | None \<Rightarrow> {})"

definition preserves :: "scope par \<Rightarrow> heap \<Rightarrow> scope par \<Rightarrow> heap \<Rightarrow> bool" where
  "preserves p s p' s' \<longleftrightarrow>
     fresh s \<le> fresh s' \<and>
     (\<forall>a. a < fresh s \<and> a \<notin> own p \<longrightarrow> dicts s' a = dicts s a) \<and>
     (\<forall>a \<in> own p'. a \<in> own p \<or> fresh s \<le> a)"

subsection \<open>Trees that expansion leaves alone\<close>




subsection \<open>Depth of a tree\<close>


fun brackets :: "nat \<Rightarrow> node" where
  "brackets 0 = BracketNode []"
| "brackets (Suc k) = BracketNode [brackets k]"





section \<open>The tokenizer covers the text and takes the leftmost match\<close>

lemma match_here_bounds:
  "match_here pat prev s = Some (n, gs) \<Longrightarrow> 0 < n \<and> n \<le> length s"
proof (cases pat)
  case TOKEN_COMMENT
  assume "match_here pat prev s = Some (n, gs)"
  with TOKEN_COMMENT show ?thesis
    apply (auto split: list.splits if_splits simp: Let_def)
    subgoal for rest
      using length_takeWhile_le [of "\<lambda>x. x \<noteq> 10" rest] by simp
    subgoal for rest a as
      using arg_cong [OF takeWhile_dropWhile_id [of "\<lambda>x. x \<noteq> 10" rest], of length] by simp
    done
next
  case TOKEN_COMMAND
  assume "match_here pat prev s = Some (n, gs)"
  with TOKEN_COMMAND show ?thesis
    apply (auto split: list.splits if_splits simp: Let_def)
    subgoal for c rest
      using length_takeWhile_le [of is_letter "c # rest"] by simp
    done
next
  case TOKEN_PARAMETER
  assume "match_here pat prev s = Some (n, gs)"
  with TOKEN_PARAMETER show ?thesis
    apply (auto split: list.splits if_splits simp: Let_def)
    subgoal for d ds
      using arg_cong [OF takeWhile_dropWhile_id [of "\<lambda>x. x = 35" s], of length] by simp
    done
next
  case TOKEN_LCB
  assume "match_here pat prev s = Some (n, gs)"
  with TOKEN_LCB show ?thesis by (auto split: list.splits if_splits)
next
  case TOKEN_RCB
  assume "match_here pat prev s = Some (n, gs)"
  with TOKEN_RCB show ?thesis by (auto split: list.splits if_splits)
next
  case TOKEN_WHITESPACE
  assume "match_here pat prev s = Some (n, gs)"
  with TOKEN_WHITESPACE show ?thesis
    using length_takeWhile_le [of is_space s]
    by (auto split: list.splits if_splits simp: Let_def)
qed

lemma match_at_bounds:
  assumes "match_at pat text p = Some (e, gs)" and "p \<le> length text"
  shows "p < e \<and> e \<le> length text"
  using assms match_here_bounds [of pat "if p = 0 then None else Some (text ! (p - 1))" "drop p text"]
  by (auto simp: match_at_def split: option.splits)

lemma find_upt_Some:
  "List.find P [a ..< b] = Some p \<longleftrightarrow> a \<le> p \<and> p < b \<and> P p \<and> (\<forall>q. a \<le> q \<and> q < p \<longrightarrow> \<not> P q)"
proof (induction "b - a" arbitrary: a)
  case 0
  then show ?case by auto
next
  case (Suc n)
  then have ab: "a < b" and n: "n = b - Suc a" by auto
  have upt: "[a ..< b] = a # [Suc a ..< b]" using ab by (simp add: upt_conv_Cons)
  show ?case
  proof (cases "P a")
    case True
    then show ?thesis using ab upt by (auto simp: not_less) 
  next
    case False
    have "(\<forall>q. a \<le> q \<and> q < p \<longrightarrow> \<not> P q) \<longleftrightarrow> (\<forall>q. Suc a \<le> q \<and> q < p \<longrightarrow> \<not> P q)"
      using False by (metis Suc_leI le_neq_implies_less Suc_leD)
    moreover have "a \<le> p \<and> P p \<longleftrightarrow> Suc a \<le> p \<and> P p"
      using False by (metis Suc_leI le_neq_implies_less Suc_leD)
    ultimately show ?thesis using False upt Suc.hyps(1) [OF n] by auto
  qed
qed

lemma find_upt_None:
  "List.find P [a ..< b] = None \<longleftrightarrow> (\<forall>q. a \<le> q \<and> q < b \<longrightarrow> \<not> P q)"
  by (auto simp: find_None_iff)

lemma not_Some_pair: "(\<forall>a b. x \<noteq> Some (a, b)) \<longleftrightarrow> x = None"
  by (cases x) auto

lemma search_Some_iff:
  "search pat text pos = Some t \<longleftrightarrow>
     pattern t = pat \<and> pos \<le> start t \<and> start t \<le> length text \<and>
     match_at pat text (start t) = Some (stop t, groups t) \<and> 
     (\<forall>q. pos \<le> q \<and> q < start t \<longrightarrow> match_at pat text q = None)"
proof -
  let ?P = "\<lambda>p. match_at pat text p \<noteq> None"
  show ?thesis
  proof (cases "List.find ?P [pos ..< Suc (length text)]")
    case None
    from None [unfolded find_upt_None]
    have "\<forall>q. pos \<le> q \<and> q < Suc (length text) \<longrightarrow> \<not> ?P q" .
    then have "\<not> (pos \<le> start t \<and> start t \<le> length text \<and> match_at pat text (start t) = Some (stop t, groups t))"
      by (metis less_Suc_eq_le option.distinct(1))
    moreover have "search pat text pos = None" using None by (simp only: search_def option.case)
    ultimately show ?thesis by auto
  next
    case (Some p)
    from Some [unfolded find_upt_Some]
    have p: "pos \<le> p" "p < Suc (length text)" "?P p" "\<forall>q. pos \<le> q \<and> q < p \<longrightarrow> \<not> ?P q"
      by blast+
    then obtain e gs where m: "match_at pat text p = Some (e, gs)" by auto
    have s: "search pat text pos = Some \<lparr>pattern = pat, start = p, stop = e, groups = gs\<rparr>"
      using Some m by (simp only: search_def option.case prod.case)
    show ?thesis
    proof
      assume "search pat text pos = Some t"
      with s have "t = \<lparr>pattern = pat, start = p, stop = e, groups = gs\<rparr>" by simp
      then show "pattern t = pat \<and> pos \<le> start t \<and> start t \<le> length text \<and>
        match_at pat text (start t) = Some (stop t, groups t) \<and> 
        (\<forall>q. pos \<le> q \<and> q < start t \<longrightarrow> match_at pat text q = None)"
        using p m by (auto simp: not_Some_pair)
    next
      assume a: "pattern t = pat \<and> pos \<le> start t \<and> start t \<le> length text \<and>
        match_at pat text (start t) = Some (stop t, groups t) \<and> 
        (\<forall>q. pos \<le> q \<and> q < start t \<longrightarrow> match_at pat text q = None)"
      have "start t = p"
      proof (rule ccontr)
        assume "start t \<noteq> p"
        then consider "start t < p" | "p < start t" by linarith
        then show False
        proof cases
          case 1 then show ?thesis using a p(4) by auto
        next
          case 2 then show ?thesis using a p(1) p(3) by auto
        qed
      qed
      with a m have "t = \<lparr>pattern = pat, start = p, stop = e, groups = gs\<rparr>" by (cases t) auto
      with s show "search pat text pos = Some t" by simp
    qed
  qed
qed

lemma search_None_iff:
  "search pat text pos = None \<longleftrightarrow> (\<forall>q. pos \<le> q \<and> q \<le> length text \<longrightarrow> match_at pat text q = None)"
proof -
  let ?P = "\<lambda>p. match_at pat text p \<noteq> None"
  show ?thesis
  proof (cases "List.find ?P [pos ..< Suc (length text)]")
    case None
    from None [unfolded find_upt_None]
    have "\<forall>q. pos \<le> q \<and> q \<le> length text \<longrightarrow> match_at pat text q = None"
      by (simp add: less_Suc_eq_le not_Some_pair)
    moreover have "search pat text pos = None" using None by (simp only: search_def option.case)
    ultimately show ?thesis by simp
  next
    case (Some p)
    from Some [unfolded find_upt_Some]
    have p: "pos \<le> p" "p < Suc (length text)" "?P p"
      by blast+
    then obtain e gs where m: "match_at pat text p = Some (e, gs)" by auto
    have "search pat text pos \<noteq> None" using Some m by (simp only: search_def option.case prod.case) simp
    moreover have "\<not> (\<forall>q. pos \<le> q \<and> q \<le> length text \<longrightarrow> match_at pat text q = None)"
      using p by (auto simp: less_Suc_eq_le)
    ultimately show ?thesis by blast
  qed
qed

lemma search_bounds:
  assumes "search pat text i = Some t"
  shows "i \<le> start t \<and> start t < stop t \<and> stop t \<le> length text \<and> pattern t = pat"
proof -
  from assms have a: "pattern t = pat" "i \<le> start t" "start t \<le> length text"
      "match_at pat text (start t) = Some (stop t, groups t)"
    by (simp_all add: search_Some_iff)
  from match_at_bounds [OF a(4) a(3)] a show ?thesis by simp
qed

lemma search_later:
  assumes "search pat text i = Some t" and "i \<le> j" and "j \<le> start t"
  shows "search pat text j = Some t"
  using assms by (auto simp: search_Some_iff)

lemma search_None_later:
  assumes "search pat text i = None" and "i \<le> j"
  shows "search pat text j = None"
  using assms by (auto simp: search_None_iff)

lemma update_token_search:
  assumes "search pat text i = Some t" and "i \<le> j"
  shows "update_token text j (int (start t)) (pattern t) (Some t) = search pat text j"
proof (cases "j \<le> start t")
  case True
  then show ?thesis using search_later [OF assms True] by (simp add: update_token_def)
next
  case False
  then show ?thesis using search_bounds [OF assms(1)] by (simp add: update_token_def)
qed

lemma update_tokens_search:
  assumes "i \<le> j"
  shows "List.map_filter (\<lambda>t. update_token text j (int (start t)) (pattern t) (Some t))
           (List.map_filter (\<lambda>p. search p text i) ps) =
         List.map_filter (\<lambda>p. search p text j) ps"
proof (induction ps)
  case Nil
  show ?case by (simp add: List.map_filter_simps)
next
  case (Cons p ps)
  show ?case
  proof (cases "search p text i")
    case None
    then show ?thesis
      using search_None_later [OF None assms] Cons.IH by (simp add: List.map_filter_simps)
  next
    case (Some t)
    then show ?thesis
      using update_token_search [OF Some assms] Cons.IH
      by (simp add: List.map_filter_simps split: option.splits)
  qed
qed

lemma initial_tokens:
  "List.map_filter (\<lambda>p. update_token text 0 (- 1) p None) ps =
   List.map_filter (\<lambda>p. search p text 0) ps"
  by (simp add: update_token_def)

lemma min_token_first_least:
  assumes "\<forall>u \<in> set l1. start t < start u" and "\<forall>u \<in> set l2. start t \<le> start u"
  shows "\<exists>xs1 xs2. l1 @ t # l2 @ us = xs1 @ min_token t us # xs2 \<and>
           (\<forall>u \<in> set xs1. start (min_token t us) < start u) \<and>
           (\<forall>u \<in> set xs2. start (min_token t us) \<le> start u)"
  using assms
proof (induction us arbitrary: t l1 l2)
  case Nil
  then show ?case by auto
next
  case (Cons u us)
  show ?case
  proof (cases "start u < start t")
    case True
    have a: "\<forall>v \<in> set (l1 @ t # l2). start u < start v"
      using True Cons.prems by fastforce
    have b: "\<forall>v \<in> set []. start u \<le> start v" by simp
    from Cons.IH [OF a b] True show ?thesis by simp
  next
    case False
    have b: "\<forall>v \<in> set (l2 @ [u]). start t \<le> start v"
      using False Cons.prems by auto
    from Cons.IH [OF Cons.prems(1) b] False show ?thesis by simp
  qed
qed

lemma map_filter_split:
  assumes "List.map_filter f ps = xs1 @ x # xs2"
  shows "\<exists>ps1 p ps2. ps = ps1 @ p # ps2 \<and> List.map_filter f ps1 = xs1 \<and> f p = Some x \<and>
           List.map_filter f ps2 = xs2"
  using assms
proof (induction ps arbitrary: xs1)
  case Nil
  then show ?case by (simp add: List.map_filter_simps)
next
  case (Cons q ps)
  show ?case
  proof (cases "f q")
    case None
    with Cons.prems have "List.map_filter f ps = xs1 @ x # xs2"
      by (simp add: List.map_filter_simps)
    from Cons.IH [OF this] obtain ps1 p ps2 where
      "ps = ps1 @ p # ps2" "List.map_filter f ps1 = xs1" "f p = Some x" "List.map_filter f ps2 = xs2"
      by blast
    then have "q # ps = (q # ps1) @ p # ps2 \<and> List.map_filter f (q # ps1) = xs1 \<and> f p = Some x \<and>
        List.map_filter f ps2 = xs2"
      using None by (simp add: List.map_filter_simps)
    then show ?thesis by blast
  next
    case (Some y)
    with Cons.prems have eq: "y # List.map_filter f ps = xs1 @ x # xs2"
      by (simp add: List.map_filter_simps)
    show ?thesis
    proof (cases xs1)
      case Nil
      with eq have "y = x" "List.map_filter f ps = xs2" by simp_all
      then have "q # ps = [] @ q # ps \<and> List.map_filter f [] = xs1 \<and> f q = Some x \<and>
          List.map_filter f ps = xs2"
        using Some Nil by (simp add: List.map_filter_simps)
      then show ?thesis by blast
    next
      case (Cons z zs)
      with eq have "y = z" "List.map_filter f ps = zs @ x # xs2" by simp_all
      from Cons.IH [OF this(2)] obtain ps1 p ps2 where
        "ps = ps1 @ p # ps2" "List.map_filter f ps1 = zs" "f p = Some x" "List.map_filter f ps2 = xs2"
        by blast
      then have "q # ps = (q # ps1) @ p # ps2 \<and> List.map_filter f (q # ps1) = xs1 \<and> f p = Some x \<and>
          List.map_filter f ps2 = xs2"
        using Some Cons \<open>y = z\<close> by (simp add: List.map_filter_simps)
      then show ?thesis by blast
    qed
  qed
qed

lemma map_filter_set:
  "u \<in> set (List.map_filter f ps) \<longleftrightarrow> (\<exists>p \<in> set ps. f p = Some u)"
proof (induction ps)
  case Nil
  show ?case by (simp add: List.map_filter_simps)
next
  case (Cons q ps)
  then show ?case by (cases "f q") (auto simp: List.map_filter_simps)
qed

lemma min_token_chosen:
  assumes "List.map_filter (\<lambda>p. search p text i) ps = t0 # ts"
  shows "chosen ps text i (min_token t0 ts)"
proof -
  let ?m = "min_token t0 ts"
  from min_token_first_least [of "[]" t0 "[]" ts]
  obtain xs1 xs2 where x: "t0 # ts = xs1 @ ?m # xs2"
    "\<forall>u \<in> set xs1. start ?m < start u" "\<forall>u \<in> set xs2. start ?m \<le> start u"
    by auto
  from map_filter_split [of "\<lambda>p. search p text i" ps xs1 ?m xs2] assms x(1)
  obtain ps1 p ps2 where p: "ps = ps1 @ p # ps2"
    "List.map_filter (\<lambda>p. search p text i) ps1 = xs1" "search p text i = Some ?m"
    "List.map_filter (\<lambda>p. search p text i) ps2 = xs2"
    by auto
  have pat: "pattern ?m = p" using search_bounds [OF p(3)] by simp
  have 1: "\<forall>q \<in> set ps1. \<forall>u. search q text i = Some u \<longrightarrow> start ?m < start u"
    using x(2) p(2) map_filter_set [of _ "\<lambda>p. search p text i" ps1] by blast
  have 2: "\<forall>q \<in> set ps2. \<forall>u. search q text i = Some u \<longrightarrow> start ?m \<le> start u"
    using x(3) p(4) map_filter_set [of _ "\<lambda>p. search p text i" ps2] by blast
  show ?thesis
    unfolding chosen_def using p(1) p(3) pat 1 2 by blast
qed

lemma tokenize_loop_correct:
  assumes "tokens = List.map_filter (\<lambda>p. search p text i) ps" and "i \<le> length text"
  shows "\<exists>r. tokenize_loop text tokens i out = Some (out @ r) \<and> covers i r (length text) \<and>
           well_chosen ps text i r"
  using assms
proof (induction "length text - i" arbitrary: i tokens out rule: less_induct)
  case less
  show ?case
  proof (cases tokens)
    case Nil
    then show ?thesis
      using less.prems(2) by (subst tokenize_loop.simps) auto
  next
    case (Cons t0 ts)
    show ?thesis
    proof (cases "i < length text")
      case False
      then show ?thesis
        using less.prems(2) Cons by (subst tokenize_loop.simps) auto
    next
      case True
      let ?m = "min_token t0 ts"
      have ch: "chosen ps text i ?m"
        using min_token_chosen [of "text" i ps t0 ts] less.prems(1) Cons by simp
      then have s: "search (pattern ?m) text i = Some ?m" by (auto simp: chosen_def)
      from search_bounds [OF s] have b: "i \<le> start ?m" "start ?m < stop ?m" "stop ?m \<le> length text"
        by simp_all
      let ?out = "(if i < start ?m then out @ [NoMatch i (start ?m)] else out) @ [Token ?m]"
      let ?tokens = "List.map_filter (\<lambda>t. update_token text (stop ?m) (int (start t)) (pattern t) (Some t)) tokens"
      have tk: "?tokens = List.map_filter (\<lambda>p. search p text (stop ?m)) ps"
        unfolding less.prems(1) by (rule update_tokens_search) (use b in simp)
      have "length text - stop ?m < length text - i" using b True by linarith
      from less.hyps [OF this tk b(3), of ?out]
      obtain r where r: "tokenize_loop text ?tokens (stop ?m) ?out = Some (?out @ r)"
        "covers (stop ?m) r (length text)" "well_chosen ps text (stop ?m) r"
        by blast
      have step: "tokenize_loop text tokens i out = tokenize_loop text ?tokens (stop ?m) ?out"
        using True Cons by (subst tokenize_loop.simps) (simp add: Let_def)
      let ?r = "(if i < start ?m then [NoMatch i (start ?m)] else []) @ Token ?m # r"
      have "tokenize_loop text tokens i out = Some (out @ ?r)"
        using step r(1) by simp
      moreover have "covers i ?r (length text)"
        using b r(2) by auto
      moreover have "well_chosen ps text i ?r"
        using ch r(3) by auto
      ultimately show ?thesis by blast
    qed
  qed
qed

lemma slice_append:
  assumes "i \<le> k" and "k \<le> j"
  shows "slice text i k @ slice text k j = slice text i j"
proof -
  have "take (k - i) (drop i text) @ take (j - k) (drop (k - i) (drop i text)) =
        take ((k - i) + (j - k)) (drop i text)"
    by (simp only: take_add)
  then show ?thesis using assms by (simp add: slice_def)
qed

lemma covers_le: "covers i toks j \<Longrightarrow> i \<le> j"
proof (induction toks arbitrary: i)
  case Nil
  then show ?case by simp
next
  case (Cons t ts)
  then have "i < token_stop t" "covers (token_stop t) ts j" by simp_all
  with Cons.IH [of "token_stop t"] show ?case by simp
qed

lemma covers_concat:
  assumes "covers i toks j"
  shows "concat (map (get_text text) toks) = slice text i j"
  using assms
proof (induction toks arbitrary: i)
  case Nil
  then show ?case by (simp add: slice_def)
next
  case (Cons t ts)
  then have c: "token_start t = i" "i < token_stop t" "covers (token_stop t) ts j" by simp_all
  from covers_le [OF c(3)] c(2) slice_append [of i "token_stop t" j "text"] Cons.IH [OF c(3)] c(1)
  show ?case by (simp add: get_text_def)
qed

lemma tokenize_result:
  "\<exists>toks. tokenize ps text = Some toks \<and>
     covers 0 toks (length text) \<and>
     concat (map (get_text text) toks) = text \<and>
     well_chosen ps text 0 toks"
proof -
  from tokenize_loop_correct [OF refl, of 0 "text" ps "[]"]
  obtain r where r: "tokenize_loop text (List.map_filter (\<lambda>p. search p text 0) ps) 0 [] = Some r"
    "covers 0 r (length text)" "well_chosen ps text 0 r"
    by auto
  have "tokenize ps text = Some r"
    using r(1) by (simp add: tokenize_def initial_tokens)
  moreover have "concat (map (get_text text) r) = text"
    using covers_concat [OF r(2), of "text"] by (simp add: slice_def)
  ultimately show ?thesis using r(2,3) by blast
qed





section \<open>The tree of a text and its rendering\<close>

lemma chosen_matched: "chosen ps text i t \<Longrightarrow> matched text (Token t)"
  by (auto simp: chosen_def search_Some_iff)

lemma well_chosen_matched: "well_chosen ps text i toks \<Longrightarrow> list_all (matched text) toks"
proof (induction toks arbitrary: i)
  case Nil
  show ?case by simp
next
  case (Cons t ts)
  then show ?case by (cases t) (auto dest: chosen_matched)
qed

lemma take_takeWhile: "take (length (takeWhile P xs)) xs = takeWhile P xs"
  by (induction xs) auto

lemma takeWhile_eq_replicate: "takeWhile (\<lambda>x. x = c) xs = replicate (length (takeWhile (\<lambda>x. x = c) xs)) c"
  by (induction xs) auto

lemma match_here_comment:
  assumes "match_here TOKEN_COMMENT prev s = Some (n, gs)"
  shows "\<exists>g. gs = [g] \<and> take n s = 37 # g"
proof -
  from assms obtain rest where s: "s = 37 # rest"
    by (cases s) (auto split: if_splits)
  let ?line = "takeWhile (\<lambda>x. x \<noteq> 10) rest"
  show ?thesis
  proof (cases "dropWhile (\<lambda>x. x \<noteq> 10) rest")
    case Nil
    then have "?line = rest" by (metis takeWhile_dropWhile_id append_Nil2)
    with assms s Nil show ?thesis by (auto simp: Let_def)
  next
    case (Cons c cs)
    then have c: "c = 10" using hd_dropWhile [of "\<lambda>x. x \<noteq> 10" rest] by fastforce
    have "rest = ?line @ c # cs" using Cons by (metis takeWhile_dropWhile_id)
    then have "take (Suc (length ?line)) rest = ?line @ [10]"
      using c by (metis append.assoc append_Cons append_Nil append_eq_conv_conj length_append_singleton)
    with assms s Cons show ?thesis by (auto simp: Let_def)
  qed
qed

lemma match_here_command:
  assumes "match_here TOKEN_COMMAND prev s = Some (n, gs)"
  shows "\<exists>g. gs = [g] \<and> take n s = 92 # g"
proof -
  from assms obtain rest where s: "s = 92 # rest"
    by (cases s) (auto split: if_splits)
  show ?thesis
    using assms s by (auto simp: Let_def take_takeWhile split: if_splits list.splits)
qed

lemma match_here_parameter:
  assumes "match_here TOKEN_PARAMETER prev s = Some (n, gs)"
  shows "\<exists>k d. gs = [replicate k 35, [d]] \<and> is_decimal d \<and> take n s = replicate k 35 @ [d]"
proof -
  let ?hs = "takeWhile (\<lambda>x. x = 35) s"
  from assms obtain d ds where d: "dropWhile (\<lambda>x. x = 35) s = d # ds" "is_decimal d"
      "n = length ?hs + 1" "gs = [?hs, [d]]"
    by (auto simp: Let_def split: if_splits list.splits)
  have "s = ?hs @ d # ds" using d(1) by (metis takeWhile_dropWhile_id)
  then have "take n s = ?hs @ [d]"
    using d(3) by (metis Suc_eq_plus1 append.assoc append_Cons append_Nil append_eq_conv_conj length_append_singleton)
  moreover have "?hs = replicate (length ?hs) 35" by (rule takeWhile_eq_replicate)
  ultimately show ?thesis using d(2,4) by metis
qed



lemma match_at_take:
  assumes "match_at pat text p = Some (e, gs)"
  obtains n where "match_here pat (if p = 0 then None else Some (text ! (p - 1))) (drop p text) = Some (n, gs)"
    and "e = p + n" and "slice text p e = take n (drop p text)"
  using assms by (auto simp: match_at_def slice_def split: option.splits)




lemma py_int_decimal: "is_decimal d \<Longrightarrow> \<exists>v. py_int [d] = Some v"
  by (simp add: py_int_def)

lemma ebind_Inr [simp]: "ebind (Inr v) f = f v"
  by (simp add: ebind_def)

lemma ebind_Inl [simp]: "ebind (Inl e) f = Inl e"
  by (simp add: ebind_def)






lemma matched_groups:
  assumes "matched text (Token k)"
  shows "(pattern k = TOKEN_COMMENT \<longrightarrow> (\<exists>g. groups k = [g])) \<and>
         (pattern k = TOKEN_COMMAND \<longrightarrow> (\<exists>g. groups k = [g])) \<and>
         (pattern k = TOKEN_PARAMETER \<longrightarrow> (\<exists>j d v. groups k = [replicate j 35, [d]] \<and> py_int [d] = Some v))"
proof -
  from assms have m: "match_at (pattern k) text (start k) = Some (stop k, groups k)" by simp
  from match_at_take [OF m] obtain n where n:
    "match_here (pattern k) (if start k = 0 then None else Some (text ! (start k - 1))) (drop (start k) text) = Some (n, groups k)"
    by blast
  show ?thesis
    using n match_here_comment match_here_command match_here_parameter py_int_decimal
    by metis
qed

lemma to_ast_loop_result:
  assumes "list_all (matched text) ts"
  shows "case brace_depth (length stack) ts of
           None \<Rightarrow> to_ast_loop text ts cur stack = Inl UnbalancedBrackets
         | Some d \<Rightarrow> \<exists>tree. to_ast_loop text ts cur stack = Inr tree"
  using assms
proof (induction ts arbitrary: cur stack)
  case Nil
  show ?case by simp
next
  case (Cons t ts)
  from Cons.prems have rest: "list_all (matched text) ts" and mt: "matched text t" by simp_all
  note IH = Cons.IH [OF rest]
  show ?case
  proof (cases t)
    case (NoMatch a b)
    then show ?thesis using IH [of "cur @ [TextNode (get_text text t)]" stack] by (auto split: option.splits)
  next
    case (Token k)
    from matched_groups [of "text" k] mt Token have g:
      "pattern k = TOKEN_COMMENT \<longrightarrow> (\<exists>g. groups k = [g])"
      "pattern k = TOKEN_COMMAND \<longrightarrow> (\<exists>g. groups k = [g])"
      "pattern k = TOKEN_PARAMETER \<longrightarrow> (\<exists>j d v. groups k = [replicate j 35, [d]] \<and> py_int [d] = Some v)"
      by simp_all
    show ?thesis
    proof (cases "pattern k")
      case TOKEN_RCB
      show ?thesis
      proof (cases stack)
        case Nil
        then show ?thesis using Token TOKEN_RCB by simp
      next
        case (Cons p stack')
        then show ?thesis using Token TOKEN_RCB IH [of "p @ [BracketNode cur]" stack'] by (auto split: option.splits)
      qed
    next
      case TOKEN_LCB
      then show ?thesis using Token IH [of "[]" "cur # stack"] by (auto split: option.splits)
    next
      case TOKEN_COMMENT
      then show ?thesis using Token g IH [of _ stack] by (auto split: option.splits)
    next
      case TOKEN_COMMAND
      then show ?thesis using Token g IH [of _ stack] by (auto split: option.splits)
    next
      case TOKEN_PARAMETER
      then show ?thesis using Token g IH [of _ stack] by (auto split: option.splits)
    next
      case TOKEN_WHITESPACE
      then show ?thesis using Token g IH [of _ stack] by (auto split: option.splits)
    qed
  qed
qed

text \<open>
  Claim C3, as amended. The braces that count are the left-brace and right-brace tokens
  of the text, that is, the braces that no backslash precedes and that are not part of
  a comment. \<open>to_ast\<close> raises \<open>UnbalancedBrackets\<close> exactly when one of the right-brace
  tokens comes with no group open. So it does not raise it when the brace tokens are
  balanced in valid nesting (nor when groups stay open at the end), and it always
  raises it when there is a right-brace token that nothing opens.
\<close>

theorem to_ast_unbalanced_iff:
  assumes "tokenize def_tokenizer text = Some toks"
  shows "to_ast (Some text) None None = Some (Inl UnbalancedBrackets) \<longleftrightarrow>
         brace_depth 0 toks = None"
proof -
  from tokenize_result [of def_tokenizer "text"] assms
  have "well_chosen def_tokenizer text 0 toks" by auto
  then have m: "list_all (matched text) toks" by (rule well_chosen_matched)
  have t: "to_ast (Some text) None None = Some (to_ast_loop text toks [] [])"
    using assms by (simp add: to_ast_def)
  from to_ast_loop_result [OF m, of "[]" "[]"] t show ?thesis
    by (cases "brace_depth 0 toks") auto
qed


lemmas tok_eval = tokenize_def def_tokenizer_def ustr_def tokenize_loop.simps List.map_filter_def
  update_token_def search_def match_at_def is_space_def is_letter_def is_decimal_def
  decimal_value_def decimal_zeros_def to_ast_def get_text_def slice_def py_int_def str_int_def
  digits_of.simps Let_def



theorem to_ast_unbalanced_iff_witness:
  "to_ast (Some (ustr ''{a}}'')) None None = Some (Inl UnbalancedBrackets) \<and>
   brace_depth 0
     [Token \<lparr>pattern = TOKEN_LCB, start = 0, stop = 1, groups = []\<rparr>, NoMatch 1 2,
      Token \<lparr>pattern = TOKEN_RCB, start = 2, stop = 3, groups = []\<rparr>,
      Token \<lparr>pattern = TOKEN_RCB, start = 3, stop = 4, groups = []\<rparr>] = None"
proof -
  have 1: "tokenize def_tokenizer (ustr ''{a}}'') =
    Some [Token \<lparr>pattern = TOKEN_LCB, start = 0, stop = 1, groups = []\<rparr>, NoMatch 1 2,
      Token \<lparr>pattern = TOKEN_RCB, start = 2, stop = 3, groups = []\<rparr>,
      Token \<lparr>pattern = TOKEN_RCB, start = 3, stop = 4, groups = []\<rparr>]"
    by (simp add: tok_eval)
  from to_ast_unbalanced_iff [OF 1] show ?thesis by simp
qed

text \<open>
  The claim as it is stated fails on braces in comments: the first text has a right brace
  that no backslash precedes and nothing opens, and \<open>to_ast\<close> returns a tree; the braces
  of the second text are balanced, and \<open>to_ast\<close> raises.
\<close>

theorem to_ast_unbalanced_counterexample:
  "nesting 0 (unescaped_braces None (ustr ''%}'')) = None \<and>
   to_ast (Some (ustr ''%}'')) None None = Some (Inr (GroupNode [CommentNode (ustr ''}'')])) \<and>
   nesting 0 (unescaped_braces None (ustr ''x%{'' @ [10] @ ustr ''}'')) = Some 0 \<and>
   to_ast (Some (ustr ''x%{'' @ [10] @ ustr ''}'')) None None = Some (Inl UnbalancedBrackets)"
  by (simp add: tok_eval)



section \<open>The depth of a traversal\<close>

lemma mbind_Some_Inr [simp]: "mbind (Some (Inr v)) f = f v"
  by (simp add: mbind_def)

lemma mbind_Some_Inl [simp]: "mbind (Some (Inl e)) f = Some (Inl e)"
  by (simp add: mbind_def)

lemma mbind_None [simp]: "mbind None f = None"
  by (simp add: mbind_def)


lemma set_children_children [simp]: "is_group m \<Longrightarrow> set_children m (children_of m) = m"
  by (cases m) simp_all



text \<open>One turn of the loop, with the descent written as the call of \<open>do_filter\<close>.\<close>

lemma filter_loop_Cons:
  "filter_loop filter_func level node (n # rest) s =
     mbind (filter_func (Some node) n rest s) (\<lambda>(r, parent, queue', s').
       let node' = (case parent of Some p \<Rightarrow> p | None \<Rightarrow> node) in
       case r of
         None \<Rightarrow> filter_loop filter_func level node' queue' s'
       | Some m \<Rightarrow>
           if is_group m then
             mbind (do_filter filter_func m (Suc level) None (data node') s')
               (\<lambda>(m', d, s''). filter_loop filter_func level
                   (node'\<lparr>children := children node' @ [m']\<rparr>) queue' s'')
           else filter_loop filter_func level (node'\<lparr>children := children node' @ [m]\<rparr>) queue' s')"
proof -
  have assoc: "mbind (mbind x (\<lambda>(p, t). Some (Inr (g p, data p, t)))) (\<lambda>(m', d, t). k m' t) =
      mbind x (\<lambda>(p, t). k (g p) t)" for x :: "(error + 'a par \<times> 'b) option" and g k
    by (cases x) (auto simp: mbind_def split: sum.splits)
  show ?thesis
    by (subst filter_loop.simps)
      (auto simp: do_filter_def assoc Let_def intro!: arg_cong2 [where f = mbind] split: option.splits)
qed


lemma is_group_brackets [simp]: "is_group (brackets k)"
  by (cases k) simp_all







section \<open>Evaluation of the halved numbers\<close>

lemma is_integral_Ints: "is_integral (PyFloat r) \<longleftrightarrow> r \<in> \<int>"
proof
  assume "is_integral (PyFloat r)"
  then show "r \<in> \<int>" by (auto split: if_splits)
next
  assume "r \<in> \<int>"
  then obtain j where "r = of_int j" by (auto elim: Ints_cases)
  then show "is_integral (PyFloat r)" by simp
qed

lemma is_integral_numeral [simp]: "is_integral (PyFloat (numeral n))"
  by (simp only: is_integral_Ints Ints_numeral)

lemma is_integral_one [simp]: "is_integral (PyFloat 1)"
  by (simp only: is_integral_Ints Ints_1)

lemma fraction_Ints:
  assumes "b \<noteq> 0"
  shows "rat_of_int a / of_int b \<in> \<int> \<longleftrightarrow> b dvd a"
proof
  assume "rat_of_int a / of_int b \<in> \<int>"
  then obtain j where "rat_of_int a / of_int b = of_int j" by (auto elim: Ints_cases)
  then have "rat_of_int a = of_int (j * b)" using assms by (simp add: field_simps)
  then have "a = j * b" by (simp only: of_int_eq_iff)
  then show "b dvd a" by (metis dvd_triv_right)
next
  assume "b dvd a"
  then obtain k where k: "a = b * k" by (auto elim: dvdE)
  have "rat_of_int a / of_int b = of_int k" unfolding k using assms by simp
  then show "rat_of_int a / of_int b \<in> \<int>" by simp
qed

lemma is_integral_fraction [simp]:
  "is_integral (PyFloat (numeral a / numeral b)) \<longleftrightarrow> (numeral b :: int) dvd numeral a"
  unfolding is_integral_Ints using fraction_Ints [of "numeral b" "numeral a"] by simp

lemma is_integral_half [simp]: "is_integral (PyFloat (1 / 2)) \<longleftrightarrow> False"
proof -
  have "(1 / 2 :: rat) \<notin> \<int>"
  proof
    assume "(1 / 2 :: rat) \<in> \<int>"
    then obtain j where "(1 / 2 :: rat) = of_int j" by (auto elim: Ints_cases)
    then have "rat_of_int 1 = of_int (2 * j)" by (simp add: field_simps)
    then have "(1 :: int) = 2 * j" by (simp only: of_int_eq_iff)
    then show False by presburger
  qed
  then show ?thesis by (simp only: is_integral_Ints)
qed

lemmas macro_eval = expand_text_def demacro_def clear_data_def clear_data_rule_def filter_node_def
  do_filter_def filter_loop.simps process_def current_scope_def check_macros_def dict_copy_def
  dict_set_def read_name_def expand_macro_def replace_parameters_def do_replace_def py_index_def
  read_command_name_def get_bracket_args_def extract_arguments_def extract_optional_argument_def
  filter_children_def read_next1_def read_until_end_bracket.simps take_node_def
  MAX_RECURSE_LEVEL_def

declare is_integral.simps(2) [simp del]

text \<open>Line 107 accepts the halved number of an integer exactly when the integer is even.\<close>

lemma halve_int_integral: "is_integral (halve (PyInt k)) \<longleftrightarrow> even k"
proof -
  have "is_integral (halve (PyInt k)) \<longleftrightarrow> rat_of_int k / of_int 2 \<in> \<int>"
    by (simp add: is_integral_Ints)
  also have "\<dots> \<longleftrightarrow> 2 dvd k" by (rule fraction_Ints) simp
  finally show ?thesis .
qed

section \<open>The lookahead reader\<close>

lemma read_next_error:
  "read_next it True \<noteq> Inr (None, it')"
  by (induction it) (auto split: node.splits)

text \<open>A text node that \<open>read_next\<close> returns has at most one character.\<close>

lemma read_next_text_short:
  assumes "read_next it err = Inr (Some (TextNode d), it')"
  shows "length d \<le> 1"
  using assms
proof (induction it)
  case Nil
  then show ?case by (simp split: if_splits)
next
  case (Cons m it)
  then show ?case by (cases m) (auto split: if_splits)
qed

text \<open>
  Claim C6. \<open>read_next\<close> skips the white space and the comments at the front of the queue.
  If nothing is left it raises \<open>UnexpectedEndOfInput\<close> when \<open>error\<close> is set (and returns
  no node otherwise). If the first node left is a text of more than one character, it
  returns a text node with the first character and puts a text node with the remainder
  back at the front of the queue. Any other node is removed from the queue and
  returned as it is.
\<close>

theorem read_next_first_significant:
  "read_next it err =
     (case dropWhile (\<lambda>n. is_whitespace n \<or> is_comment n) it of
        [] \<Rightarrow> if err then Inl UnexpectedEndOfInput else Inr (None, [])
      | TextNode d # rest \<Rightarrow>
          if length d > 1 then Inr (Some (TextNode [hd d]), TextNode (tl d) # rest)
          else Inr (Some (TextNode d), rest)
      | n # rest \<Rightarrow> Inr (Some n, rest))"
proof (induction it)
  case Nil
  show ?case by simp
next
  case (Cons m it)
  show ?case
  proof (cases "is_whitespace m \<or> is_comment m")
    case True
    then show ?thesis using Cons.IH by simp
  next
    case False
    then show ?thesis by (cases m) simp_all
  qed
qed

theorem read_next_first_significant_witness:
  "read_next [WhitespaceNode (ustr '' ''), CommentNode (ustr ''c''), TextNode (ustr ''abc''),
              CommandNode (ustr ''x'')] True =
     Inr (Some (TextNode (ustr ''a'')), [TextNode (ustr ''bc''), CommandNode (ustr ''x'')])
   \<and> read_next [WhitespaceNode (ustr '' ''), CommentNode (ustr ''c'')] True =
     Inl UnexpectedEndOfInput
   \<and> read_next [WhitespaceNode (ustr '' ''), CommentNode (ustr ''c'')] False = Inr (None, [])"
  using
    read_next_first_significant [of "[WhitespaceNode (ustr '' ''), CommentNode (ustr ''c''),
      TextNode (ustr ''abc''), CommandNode (ustr ''x'')]" True]
    read_next_first_significant [of "[WhitespaceNode (ustr '' ''), CommentNode (ustr ''c'')]" True]
    read_next_first_significant [of "[WhitespaceNode (ustr '' ''), CommentNode (ustr ''c'')]" False]
  by (simp add: ustr_def)


section \<open>Bracketed arguments\<close>







section \<open>Substitution of the parameters\<close>

text \<open>
  Claim C7 fails on the code. A parameter with six hashes is halved to three and kept:
  the check is that the halved number is whole, not that it is a power of two, although
  the message of the error says so.
\<close>

theorem halved_six_kept:
  "replace_parameters (GroupNode [ParameterNode (PyInt 6) 1]) [TextNode (ustr ''x'')] =
     Some (Inr (GroupNode [ParameterNode (PyFloat 3) 1]))"
  by (simp add: macro_eval)


section \<open>Definitions of macros\<close>

lemma consulted_written:
  "consulted (p\<lparr>data := Some (fst (check_macros sc h))\<rparr>)
     (dict_set (snd (check_macros sc h)) (macros (fst (check_macros sc h))) name entry) =
   Some ((dicts h (macros sc))(name := Some entry))"
  by (simp add: consulted_def current_scope_def check_macros_def dict_copy_def dict_set_def)

lemma process_define:
  assumes "current_scope p = Inr sc"
    and "read_command_name queue = Inr (name, q1)"
    and "get_bracket_args q1 = Inr (a, dflt, temp, q2)"
    and "cmd = ustr ''newcommand'' \<or> cmd = ustr ''renewcommand'' \<or> cmd = ustr ''providecommand''"
  shows "process (Some p) (CommandNode cmd) queue h =
     (if cmd = ustr ''newcommand'' \<and> dicts h (macros sc) name \<noteq> None then Some (Inl DuplicateMacro)
      else if cmd \<noteq> ustr ''providecommand'' \<or> dicts h (macros sc) name = None then
        Some (Inr (None, Some (p\<lparr>data := Some (fst (check_macros sc h))\<rparr>), q2,
          dict_set (snd (check_macros sc h)) (macros (fst (check_macros sc h))) name
            \<lparr>args = a, default_arg = dflt, body = Template (GroupNode (take_node [] temp))\<rparr>))
      else Some (Inr (None, Some (p\<lparr>data := Some sc\<rparr>), q2, h)))"
  using assms by (auto simp: process_def Let_def split: prod.splits)

text \<open>
  Claim C5. Let the name and the parts of a definition be read from the queue, and let
  \<open>entry\<close> be the entry they make. If the name is in the table that the group consults,
  \<open>newcommand\<close> raises \<open>DuplicateMacro\<close>, and \<open>providecommand\<close> changes nothing: the group
  consults the same table afterwards. \<open>renewcommand\<close> in every case, and
  \<open>providecommand\<close> when the name is not in the table, leave a table in which the name
  has the new entry. A later command of a name that the table has is expanded with the
  entry of the table.
\<close>

theorem define_command:
  assumes "current_scope p = Inr sc"
    and "read_command_name queue = Inr (name, q1)"
    and "get_bracket_args q1 = Inr (a, dflt, temp, q2)"
    and "entry = \<lparr>args = a, default_arg = dflt, body = Template (GroupNode (take_node [] temp))\<rparr>"
  shows
    "(dicts h (macros sc) name \<noteq> None \<longrightarrow>
        process (Some p) (CommandNode (ustr ''newcommand'')) queue h = Some (Inl DuplicateMacro)) \<and>
     (\<exists>p' h'. process (Some p) (CommandNode (ustr ''renewcommand'')) queue h =
                 Some (Inr (None, Some p', q2, h')) \<and>
               consulted p' h' = Some ((dicts h (macros sc))(name := Some entry))) \<and>
     (dicts h (macros sc) name \<noteq> None \<longrightarrow>
        process (Some p) (CommandNode (ustr ''providecommand'')) queue h =
          Some (Inr (None, Some (p\<lparr>data := Some sc\<rparr>), q2, h)) \<and>
        consulted (p\<lparr>data := Some sc\<rparr>) h = Some (dicts h (macros sc))) \<and>
     (dicts h (macros sc) name = None \<longrightarrow>
        (\<exists>p' h'. process (Some p) (CommandNode (ustr ''providecommand'')) queue h =
                    Some (Inr (None, Some p', q2, h')) \<and>
                  consulted p' h' = Some ((dicts h (macros sc))(name := Some entry)))) \<and>
     (\<forall>p' h' t e q. consulted p' h' = Some t \<and> t name = Some e \<and> \<not> is_definition_command name \<longrightarrow>
        (\<exists>sc'. process (Some p') (CommandNode name) q h' =
           mbind (expand_macro q e) (\<lambda>q'. Some (Inr (None, Some (p'\<lparr>data := Some sc'\<rparr>), q', h')))))"
proof -
  note d = process_define [OF assms(1-3)]
  have 1: "dicts h (macros sc) name \<noteq> None \<longrightarrow>
        process (Some p) (CommandNode (ustr ''newcommand'')) queue h = Some (Inl DuplicateMacro)"
    using d [of "ustr ''newcommand''" h] by simp
  have 2: "\<exists>p' h'. process (Some p) (CommandNode (ustr ''renewcommand'')) queue h =
                 Some (Inr (None, Some p', q2, h')) \<and>
               consulted p' h' = Some ((dicts h (macros sc))(name := Some entry))"
    using d [of "ustr ''renewcommand''" h] consulted_written [where p = p and sc = sc and h = h and name = name and entry = entry] assms(4)
    by (simp add: ustr_def)
  have 3: "dicts h (macros sc) name \<noteq> None \<longrightarrow>
        process (Some p) (CommandNode (ustr ''providecommand'')) queue h =
          Some (Inr (None, Some (p\<lparr>data := Some sc\<rparr>), q2, h)) \<and>
        consulted (p\<lparr>data := Some sc\<rparr>) h = Some (dicts h (macros sc))"
    using d [of "ustr ''providecommand''" h]
    by (simp add: ustr_def consulted_def current_scope_def)
  have 4: "dicts h (macros sc) name = None \<longrightarrow>
        (\<exists>p' h'. process (Some p) (CommandNode (ustr ''providecommand'')) queue h =
                    Some (Inr (None, Some p', q2, h')) \<and>
                  consulted p' h' = Some ((dicts h (macros sc))(name := Some entry)))"
    using d [of "ustr ''providecommand''" h] consulted_written [where p = p and sc = sc and h = h and name = name and entry = entry] assms(4)
    by (simp add: ustr_def)
  have 5: "\<exists>sc'. process (Some p') (CommandNode name) q h' =
           mbind (expand_macro q e) (\<lambda>q'. Some (Inr (None, Some (p'\<lparr>data := Some sc'\<rparr>), q', h')))"
    if "consulted p' h' = Some t" "t name = Some e" "\<not> is_definition_command name"
    for p' h' t e q
  proof -
    from that(1) obtain sc' where sc': "current_scope p' = Inr sc'" "t = dicts h' (macros sc')"
      by (auto simp: consulted_def split: sum.splits)
    have "process (Some p') (CommandNode name) q h' =
           mbind (expand_macro q e) (\<lambda>q'. Some (Inr (None, Some (p'\<lparr>data := Some sc'\<rparr>), q', h')))"
      using sc' that(2,3) by (simp add: process_def is_definition_command_def Let_def)
    then show ?thesis by blast
  qed
  from 1 2 3 4 5 show ?thesis by blast
qed

theorem define_command_witness:
  "process
     (Some \<lparr>children = [], data = Some \<lparr>macros = 0, copied = False\<rparr>, parent_data = None\<rparr>)
     (CommandNode (ustr ''newcommand''))
     [BracketNode [CommandNode (ustr ''aa'')], BracketNode [TextNode (ustr ''y'')]]
     \<lparr>dicts = (\<lambda>r k. if k = ustr ''aa''
                then Some \<lparr>args = 0, default_arg = None, body = Template (GroupNode [])\<rparr>
                else None),
      fresh = 1\<rparr> = Some (Inl DuplicateMacro) \<and>
   expand_text (\<lambda>k. None)
     (92 # ustr ''newcommand{'' @ 92 # ustr ''aa}{x}'' @ 92 # ustr ''renewcommand{'' @
      92 # ustr ''aa}{y}'' @ 92 # ustr ''aa'') = Some (Inr (ustr ''y'')) \<and>
   expand_text (\<lambda>k. None)
     (92 # ustr ''newcommand{'' @ 92 # ustr ''aa}{x}'' @ 92 # ustr ''providecommand{'' @
      92 # ustr ''aa}{y}'' @ 92 # ustr ''aa'') = Some (Inr (ustr ''x'')) \<and>
   expand_text (\<lambda>k. None)
     (92 # ustr ''providecommand{'' @ 92 # ustr ''aa}{y}'' @ 92 # ustr ''aa'') =
     Some (Inr (ustr ''y'')) \<and>
   expand_text (\<lambda>k. None)
     (92 # ustr ''newcommand{'' @ 92 # ustr ''aa}{x}'' @ 92 # ustr ''newcommand{'' @
      92 # ustr ''aa}{y}'') = Some (Inl DuplicateMacro)"
proof -
  let ?p = "\<lparr>children = [], data = Some \<lparr>macros = 0, copied = False\<rparr>, parent_data = None\<rparr>"
  let ?queue = "[BracketNode [CommandNode (ustr ''aa'')], BracketNode [TextNode (ustr ''y'')]]"
  let ?h = "\<lparr>dicts = (\<lambda>r k. if k = ustr ''aa''
                then Some \<lparr>args = 0, default_arg = None, body = Template (GroupNode [])\<rparr>
                else None),
      fresh = 1\<rparr>"
  have 1: "current_scope ?p = Inr \<lparr>macros = 0, copied = False\<rparr>"
    by (simp add: current_scope_def)
  have 2: "read_command_name ?queue = Inr (ustr ''aa'', [BracketNode [TextNode (ustr ''y'')]])"
    by (simp add: read_command_name_def read_next1_def filter_children_def)
  have 3: "get_bracket_args [BracketNode [TextNode (ustr ''y'')]] =
      Inr (0, None, BracketNode [TextNode (ustr ''y'')], [])"
    by (simp add: get_bracket_args_def read_next1_def)
  have run: "expand_text (\<lambda>k. None)
     (92 # ustr ''newcommand{'' @ 92 # ustr ''aa}{x}'' @ 92 # ustr ''renewcommand{'' @
      92 # ustr ''aa}{y}'' @ 92 # ustr ''aa'') = Some (Inr (ustr ''y'')) \<and>
   expand_text (\<lambda>k. None)
     (92 # ustr ''newcommand{'' @ 92 # ustr ''aa}{x}'' @ 92 # ustr ''providecommand{'' @
      92 # ustr ''aa}{y}'' @ 92 # ustr ''aa'') = Some (Inr (ustr ''x'')) \<and>
   expand_text (\<lambda>k. None)
     (92 # ustr ''providecommand{'' @ 92 # ustr ''aa}{y}'' @ 92 # ustr ''aa'') =
     Some (Inr (ustr ''y'')) \<and>
   expand_text (\<lambda>k. None)
     (92 # ustr ''newcommand{'' @ 92 # ustr ''aa}{x}'' @ 92 # ustr ''newcommand{'' @
      92 # ustr ''aa}{y}'') = Some (Inl DuplicateMacro)"
    by (simp add: tok_eval macro_eval)
  from define_command [OF 1 2 3 refl, of ?h] run show ?thesis by simp
qed


section \<open>Scopes of the macro tables\<close>

lemma mbind_eq_Some:
  "mbind x f = Some r \<longleftrightarrow> (\<exists>e. x = Some (Inl e) \<and> r = Inl e) \<or> (\<exists>v. x = Some (Inr v) \<and> f v = Some r)"
  by (auto simp: mbind_def split: option.splits sum.splits)

lemma ebind_eq_Inr:
  "ebind x f = Inr r \<longleftrightarrow> (\<exists>v. x = Inr v \<and> f v = Inr r)"
  by (auto simp: ebind_def split: sum.splits)

lemma preserves_refl: "own p' = own p \<Longrightarrow> preserves p s p' s"
  by (simp add: preserves_def)

lemma preserves_trans:
  assumes "preserves p0 s0 p1 s1" and "preserves p1 s1 p2 s2"
  shows "preserves p0 s0 p2 s2"
  unfolding preserves_def
proof (intro conjI allI impI ballI)
  show "fresh s0 \<le> fresh s2" using assms by (simp add: preserves_def)
next
  fix a assume a: "a < fresh s0 \<and> a \<notin> own p0"
  then have 1: "dicts s1 a = dicts s0 a" using assms(1) by (simp add: preserves_def)
  have "a \<notin> own p1" using a assms(1) by (fastforce simp: preserves_def)
  moreover have "a < fresh s1" using a assms(1) by (simp add: preserves_def)
  ultimately have "dicts s2 a = dicts s1 a" using assms(2) by (simp add: preserves_def)
  with 1 show "dicts s2 a = dicts s0 a" by simp
next
  fix a assume "a \<in> own p2"
  then have "a \<in> own p1 \<or> fresh s1 \<le> a" using assms(2) by (simp add: preserves_def)
  moreover have "fresh s0 \<le> fresh s1" using assms(1) by (simp add: preserves_def)
  ultimately show "a \<in> own p0 \<or> fresh s0 \<le> a" using assms(1) by (fastforce simp: preserves_def)
qed

lemma own_children [simp]: "own (p\<lparr>children := cs\<rparr>) = own p"
  by (simp add: own_def)

lemma preserves_children:
  "preserves (p\<lparr>children := cs\<rparr>) s p' s' = preserves p s p' s'"
  by (simp add: preserves_def)

lemma current_scope_own:
  assumes "current_scope p = Inr sc"
  shows "own (p\<lparr>data := Some sc\<rparr>) = own p"
  using assms by (auto simp: current_scope_def own_def split: option.splits)

lemma current_scope_copied:
  assumes "current_scope p = Inr sc" and "copied sc"
  shows "macros sc \<in> own p"
  using assms by (auto simp: current_scope_def own_def split: option.splits)

lemma define_preserves:
  assumes "current_scope p = Inr sc"
  shows "preserves p s (p\<lparr>data := Some (fst (check_macros sc s))\<rparr>)
           (dict_set (snd (check_macros sc s)) (macros (fst (check_macros sc s))) name e)"
    and "preserves p s (p\<lparr>data := Some (fst (check_macros sc s))\<rparr>)
           (dict_set (dict_set (snd (check_macros sc s)) (macros (fst (check_macros sc s))) name e)
              (macros (fst (check_macros sc s))) name2 e2)"
  using current_scope_copied [OF assms]
  by (auto simp: preserves_def check_macros_def dict_copy_def dict_set_def own_def)

lemma process_preserves:
  assumes "process (Some p) n q s = Some (Inr (r, par, q', s'))"
  shows "\<exists>p'. par = Some p' \<and> preserves p s p' s' \<and> parent_data p' = parent_data p"
proof -
  from assms obtain sc where sc: "current_scope p = Inr sc"
    by (cases "current_scope p") (auto simp: process_def)
  note r = preserves_refl [OF current_scope_own [OF sc]]
  note d = define_preserves [OF sc]
  show ?thesis
  proof (cases n)
    case (CommandNode cmd)
    show ?thesis
      using assms sc unfolding CommandNode process_def
      by (auto simp: Let_def mbind_eq_Some ebind_eq_Inr case_prod_beta r d
          split: if_splits option.splits)
  qed (use assms sc r in \<open>auto simp: process_def Let_def\<close>)
qed


lemma filter_loop_preserves_aux:
  assumes "filter_loop f0 level0 node0 queue0 s0 = Some r0"
  shows "f0 = process \<longrightarrow> (\<forall>node' s'. r0 = Inr (node', s') \<longrightarrow> preserves node0 s0 node' s')"
proof (rule filter_loop.raw_induct
    [where P = "\<lambda>f level node queue s r.
       f = process \<longrightarrow> (\<forall>node' s'. r = Inr (node', s') \<longrightarrow> preserves node s node' s')",
     OF _ assms])
  fix loop :: "(scope, heap) filter_func \<Rightarrow> nat \<Rightarrow> scope par \<Rightarrow> node list \<Rightarrow> heap \<Rightarrow>
      (error + scope par \<times> heap) option"
  fix f level node queue s r
  assume step: "\<And>f level node queue s r. loop f level node queue s = Some r \<Longrightarrow>
      f = process \<longrightarrow> (\<forall>node' s'. r = Inr (node', s') \<longrightarrow> preserves node s node' s')"
  assume hyps: "(case queue of
        [] \<Rightarrow> Some (Inr (node, s))
      | n # rest \<Rightarrow>
          mbind (f (Some node) n rest s) (\<lambda>(r, parent, queue', s').
            let node' = (case parent of Some p \<Rightarrow> p | None \<Rightarrow> node) in
            case r of
              None \<Rightarrow> loop f level node' queue' s'
            | Some m \<Rightarrow>
                if is_group m then
                  if Suc level > MAX_RECURSE_LEVEL then Some (Inl RecursionLimitExceeded)
                  else
                    mbind (loop f (Suc level)
                             \<lparr>children = [], data = None, parent_data = data node'\<rparr>
                             (children_of m) s')
                      (\<lambda>(inner, s'').
                         loop f level
                           (node'\<lparr>children := children node' @ [set_children m (children inner)]\<rparr>)
                           queue' s'')
                else
                  loop f level (node'\<lparr>children := children node' @ [m]\<rparr>) queue' s')) = Some r"
  have IH: "preserves node s node' s'" if "loop process level node queue s = Some (Inr (node', s'))"
    for level node queue s node' s'
    using step [OF that] by simp
  show "f = process \<longrightarrow> (\<forall>node' s'. r = Inr (node', s') \<longrightarrow> preserves node s node' s')"
  proof (intro impI allI)
    fix node' s'
    assume f: "f = process" and r: "r = Inr (node', s')"
    show "preserves node s node' s'"
    proof (cases queue)
      case Nil
      then show ?thesis using hyps r by (simp add: preserves_refl)
    next
      case (Cons n rest)
      from hyps Cons f r obtain v where v: "process (Some node) n rest s = Some (Inr v)"
        and k: "(case v of (res, parent, queue', s1) \<Rightarrow>
            let node1 = (case parent of Some p \<Rightarrow> p | None \<Rightarrow> node) in
            case res of
              None \<Rightarrow> loop process level node1 queue' s1
            | Some m \<Rightarrow>
                if is_group m then
                  if Suc level > MAX_RECURSE_LEVEL then Some (Inl RecursionLimitExceeded)
                  else
                    mbind (loop process (Suc level)
                             \<lparr>children = [], data = None, parent_data = data node1\<rparr>
                             (children_of m) s1)
                      (\<lambda>(inner, s2).
                         loop process level
                           (node1\<lparr>children := children node1 @ [set_children m (children inner)]\<rparr>)
                           queue' s2)
                else
                  loop process level (node1\<lparr>children := children node1 @ [m]\<rparr>) queue' s1) =
          Some (Inr (node', s'))"
        by (auto simp: mbind_eq_Some)
      obtain res parent queue' s1 where vv: "v = (res, parent, queue', s1)" by (cases v)
      from process_preserves [OF v [unfolded vv]] obtain p1 where
        p1: "parent = Some p1" "preserves node s p1 s1" by blast
      show ?thesis
      proof (cases res)
        case None
        with k vv p1 have "loop process level p1 queue' s1 = Some (Inr (node', s'))" by simp
        from IH [OF this] have "preserves p1 s1 node' s'" .
        with p1(2) show ?thesis by (rule preserves_trans)
      next
        case (Some m)
        show ?thesis
        proof (cases "is_group m")
          case False
          with k vv p1 Some have
            "loop process level (p1\<lparr>children := children p1 @ [m]\<rparr>) queue' s1 = Some (Inr (node', s'))"
            by simp
          from IH [OF this] have "preserves p1 s1 node' s'"
            by (simp add: preserves_children)
          with p1(2) show ?thesis by (rule preserves_trans)
        next
          case True
          with k vv p1 Some obtain inner s2 where
            i: "loop process (Suc level) \<lparr>children = [], data = None, parent_data = data p1\<rparr>
                  (children_of m) s1 = Some (Inr (inner, s2))"
            and o: "loop process level
                  (p1\<lparr>children := children p1 @ [set_children m (children inner)]\<rparr>) queue' s2 =
                Some (Inr (node', s'))"
            by (auto simp: mbind_eq_Some split: if_splits)
          from IH [OF i] have
            a: "preserves \<lparr>children = [], data = None, parent_data = data p1\<rparr> s1 inner s2" .
          from IH [OF o] have b: "preserves p1 s2 node' s'"
            by (simp add: preserves_children)
          have "preserves p1 s1 p1 s2"
            using a by (auto simp: preserves_def own_def)
          with p1(2) have "preserves node s p1 s2" by (rule preserves_trans)
          then show ?thesis using b by (rule preserves_trans)
        qed
      qed
    qed
  qed
qed

lemma filter_loop_preserves:
  assumes "filter_loop process level node queue s = Some (Inr (node', s'))"
  shows "preserves node s node' s'"
  using filter_loop_preserves_aux [OF assms] by simp


lemma nested_consults_parent:
  "consulted \<lparr>children = cs, data = None, parent_data = Some sc\<rparr> h = Some (dicts h (macros sc))"
  by (simp add: consulted_def current_scope_def)

lemma process_group:
  assumes "current_scope node = Inr sc" and "\<not> (\<exists>cmd. n = CommandNode cmd)"
  shows "process (Some node) n rest s = Some (Inr (Some n, Some (node\<lparr>data := Some sc\<rparr>), rest, s))"
  using assms by (cases n) (simp_all add: process_def)

lemma filter_loop_group:
  assumes "current_scope node = Inr sc" and "Suc level \<le> MAX_RECURSE_LEVEL"
    and "filter_loop process (Suc level) \<lparr>children = [], data = None, parent_data = Some sc\<rparr> cs s =
           Some (Inr (inner, s'))"
  shows "filter_loop process level node (BracketNode cs # rest) s =
         filter_loop process level
           (node\<lparr>data := Some sc, children := children node @ [BracketNode (children inner)]\<rparr>) rest s'"
  using assms process_group [of node sc "BracketNode cs" rest s]
  by (subst filter_loop.simps) simp

text \<open>
  Claim C9. A definition made in a group is seen by what follows in the group and by the
  groups nested in it: after the definition the group consults a table that has the
  new entry, and a group nested in it, which has made no definition, consults the same
  table. A group that has made no definition consults the table of the group around
  it. What a bracket group defines is not seen after it closes: when the group has been
  filtered, the table that the group around it consults is the one it consulted before,
  and the loop goes on with the siblings that follow.
\<close>

theorem macro_scoping:
  "(current_scope p = Inr sc \<and> macros sc < fresh h \<and>
    read_command_name queue = Inr (name, q1) \<and> get_bracket_args q1 = Inr (a, dflt, temp, q2) \<and>
    (cmd = ustr ''renewcommand'' \<or>
     (cmd = ustr ''newcommand'' \<or> cmd = ustr ''providecommand'') \<and>
     dicts h (macros sc) name = None) \<longrightarrow>
      (\<exists>p' h' sc'. process (Some p) (CommandNode cmd) queue h =
           Some (Inr (None, Some p', q2, h')) \<and>
         data p' = Some sc' \<and> macros sc' < fresh h' \<and>
         consulted p' h' = Some ((dicts h (macros sc))(name := Some
           \<lparr>args = a, default_arg = dflt, body = Template (GroupNode (take_node [] temp))\<rparr>)) \<and>
         consulted \<lparr>children = [], data = None, parent_data = data p'\<rparr> h' = consulted p' h')) \<and>
   consulted \<lparr>children = [], data = None, parent_data = Some sc\<rparr> s = Some (dicts s (macros sc)) \<and>
   (current_scope node = Inr sc \<and> macros sc < fresh s \<and> Suc level \<le> MAX_RECURSE_LEVEL \<and>
    filter_loop process (Suc level) \<lparr>children = [], data = None, parent_data = Some sc\<rparr> cs s =
      Some (Inr (inner, s')) \<longrightarrow>
      dicts s' (macros sc) = dicts s (macros sc) \<and> macros sc < fresh s' \<and>
      filter_loop process level node (BracketNode cs # rest) s =
        filter_loop process level
          (node\<lparr>data := Some sc, children := children node @ [BracketNode (children inner)]\<rparr>)
          rest s' \<and>
      consulted (node\<lparr>data := Some sc, children := children node @ [BracketNode (children inner)]\<rparr>) s' =
        Some (dicts s (macros sc)))"
proof (intro conjI impI)
  assume a: "current_scope p = Inr sc \<and> macros sc < fresh h \<and>
    read_command_name queue = Inr (name, q1) \<and> get_bracket_args q1 = Inr (a, dflt, temp, q2) \<and>
    (cmd = ustr ''renewcommand'' \<or>
     (cmd = ustr ''newcommand'' \<or> cmd = ustr ''providecommand'') \<and>
     dicts h (macros sc) name = None)"
  let ?entry = "\<lparr>args = a, default_arg = dflt, body = Template (GroupNode (take_node [] temp))\<rparr>"
  let ?p' = "p\<lparr>data := Some (fst (check_macros sc h))\<rparr>"
  let ?h' = "dict_set (snd (check_macros sc h)) (macros (fst (check_macros sc h))) name ?entry"
  from a have "process (Some p) (CommandNode cmd) queue h =
      Some (Inr (None, Some ?p', q2, ?h'))"
    using process_define [of p sc queue name q1 a dflt temp q2 cmd h] by (auto simp: ustr_def)
  moreover have "data ?p' = Some (fst (check_macros sc h))" by simp
  moreover have "macros (fst (check_macros sc h)) < fresh ?h'"
    using a by (simp add: check_macros_def dict_copy_def dict_set_def)
  moreover have c: "consulted ?p' ?h' = Some ((dicts h (macros sc))(name := Some ?entry))"
    by (rule consulted_written)
  moreover have "consulted \<lparr>children = [], data = None, parent_data = data ?p'\<rparr> ?h' = consulted ?p' ?h'"
    by (simp add: consulted_def current_scope_def)
  ultimately show "\<exists>p' h' sc'. process (Some p) (CommandNode cmd) queue h =
           Some (Inr (None, Some p', q2, h')) \<and>
         data p' = Some sc' \<and> macros sc' < fresh h' \<and>
         consulted p' h' = Some ((dicts h (macros sc))(name := Some ?entry)) \<and>
         consulted \<lparr>children = [], data = None, parent_data = data p'\<rparr> h' = consulted p' h'"
    by blast
next
  show "consulted \<lparr>children = [], data = None, parent_data = Some sc\<rparr> s = Some (dicts s (macros sc))"
    by (rule nested_consults_parent)
next
  assume a: "current_scope node = Inr sc \<and> macros sc < fresh s \<and> Suc level \<le> MAX_RECURSE_LEVEL \<and>
    filter_loop process (Suc level) \<lparr>children = [], data = None, parent_data = Some sc\<rparr> cs s =
      Some (Inr (inner, s'))"
  then have i: "filter_loop process (Suc level) \<lparr>children = [], data = None, parent_data = Some sc\<rparr> cs s =
      Some (Inr (inner, s'))" by simp
  from filter_loop_preserves [OF i] have
    pr: "preserves \<lparr>children = [], data = None, parent_data = Some sc\<rparr> s inner s'" .
  show d: "dicts s' (macros sc) = dicts s (macros sc)"
    using pr a by (simp add: preserves_def own_def)
  show "macros sc < fresh s'"
    using pr a by (simp add: preserves_def)
  show "filter_loop process level node (BracketNode cs # rest) s =
        filter_loop process level
          (node\<lparr>data := Some sc, children := children node @ [BracketNode (children inner)]\<rparr>)
          rest s'"
    using a by (intro filter_loop_group) simp_all
  show "consulted (node\<lparr>data := Some sc, children := children node @ [BracketNode (children inner)]\<rparr>) s' =
        Some (dicts s (macros sc))"
    using d by (simp add: consulted_def current_scope_def)
qed


theorem macro_scoping_witness:
  "(\<exists>inner s'. filter_loop process 1
       \<lparr>children = [], data = None, parent_data = Some \<lparr>macros = 0, copied = False\<rparr>\<rparr>
       [CommandNode (ustr ''newcommand''), BracketNode [CommandNode (ustr ''aa'')],
        BracketNode [TextNode (ustr ''x'')], CommandNode (ustr ''aa'')]
       \<lparr>dicts = (\<lambda>a k. None), fresh = 1\<rparr> = Some (Inr (inner, s')) \<and>
     children inner = [TextNode (ustr ''x'')] \<and>
     dicts s' 0 = (\<lambda>k. None)) \<and>
   expand_text (\<lambda>k. None)
     (ustr ''{'' @ 92 # ustr ''newcommand{'' @ 92 # ustr ''aa}{x}'' @ 92 # ustr ''aa{'' @
      92 # ustr ''aa}}'' @ 92 # ustr ''aa'') =
     Some (Inr (ustr ''{x{x}}'' @ 92 # ustr ''aa''))"
proof -
  let ?node = "\<lparr>children = [], data = Some \<lparr>macros = 0, copied = False\<rparr>, parent_data = None\<rparr> :: scope par"
  let ?s = "\<lparr>dicts = (\<lambda>a k. None), fresh = 1\<rparr> :: heap"
  let ?cs = "[CommandNode (ustr ''newcommand''), BracketNode [CommandNode (ustr ''aa'')],
        BracketNode [TextNode (ustr ''x'')], CommandNode (ustr ''aa'')]"
  have "\<exists>inner s'. filter_loop process 1
       \<lparr>children = [], data = None, parent_data = Some \<lparr>macros = 0, copied = False\<rparr>\<rparr> ?cs ?s =
       Some (Inr (inner, s')) \<and> children inner = [TextNode (ustr ''x'')]"
    by (simp add: tok_eval macro_eval)
  then obtain inner s' where i: "filter_loop process (Suc 0)
       \<lparr>children = [], data = None, parent_data = Some \<lparr>macros = 0, copied = False\<rparr>\<rparr> ?cs ?s =
       Some (Inr (inner, s'))" "children inner = [TextNode (ustr ''x'')]"
    by auto
  have c: "current_scope ?node = Inr \<lparr>macros = 0, copied = False\<rparr>"
    by (simp add: current_scope_def)
  have "dicts s' 0 = (\<lambda>k. None)"
    using macro_scoping [where node = ?node and sc = "\<lparr>macros = 0, copied = False\<rparr>" and s = ?s
        and level = 0 and cs = ?cs and inner = inner and s' = s'] c i(1)
    by (simp add: MAX_RECURSE_LEVEL_def)
  moreover have "expand_text (\<lambda>k. None)
     (ustr ''{'' @ 92 # ustr ''newcommand{'' @ 92 # ustr ''aa}{x}'' @ 92 # ustr ''aa{'' @
      92 # ustr ''aa}}'' @ 92 # ustr ''aa'') =
     Some (Inr (ustr ''{x{x}}'' @ 92 # ustr ''aa''))"
    by (simp add: tok_eval macro_eval)
  ultimately show ?thesis using i by auto
qed


section \<open>Expansion with no macro\<close>




















end
